theory Spec2Isabelle
  imports Complex_Main "HOL-Library.Option_ord" "HOL-Library.Sublist" "HOL-Library.Log_Nat"
begin

section \<open>Data model of src/src/db.ts\<close>

text \<open>
  The TypeScript interfaces of \<^verbatim>\<open>db.ts\<close>. An optional field (\<^verbatim>\<open>path?: string\<close>) is an
  \<open>option\<close>: \<open>None\<close> is JavaScript's \<^verbatim>\<open>undefined\<close>, which the driver binds as SQL
  \<^verbatim>\<open>NULL\<close>. The columns of table \<^verbatim>\<open>traffic\<close> carry the same data under snake-case names
  (\<^verbatim>\<open>site_id\<close> is \<open>siteId\<close>, \<^verbatim>\<open>ip_address\<close> is \<open>ipAddress\<close>, \<^verbatim>\<open>request_type\<close> is
  \<open>requestType\<close>, and so on).
  \<^verbatim>\<open>interface TrafficDBRecord extends TrafficRecord { id: number; created_at: number }\<close>
  becomes a record extension; \<^verbatim>\<open>id\<close> is called \<open>id_num\<close> because \<open>id\<close> is HOL's identity
  function. Times and ids are mathematical integers: \<^verbatim>\<open>timestamp\<close> counts milliseconds
  and \<^verbatim>\<open>created_at\<close> seconds since 1970-01-01, and the limits of a 64-bit rowid and of
  a JavaScript number (\<open>2^53\<close>) are taken to be out of reach.
\<close>

record TrafficRecord =
  siteId :: string
  path :: "string option"
  userAgent :: "string option"
  ipAddress :: "string option"
  country :: "string option"
  city :: "string option"
  referrer :: "string option"
  requestType :: "string option"
  timestamp :: "int option"

record TrafficDBRecord = TrafficRecord +
  id_num :: int
  created_at :: int

text \<open>
  \<^verbatim>\<open>interface TrafficStats\<close>. A row \<^verbatim>\<open>{referrer, count}\<close> of \<^verbatim>\<open>top_referrers\<close> is a pair,
  a \<^verbatim>\<open>DailyViews\<close> row \<^verbatim>\<open>{date, count}\<close> is a pair whose date is \<open>None\<close> when SQLite
  yields \<^verbatim>\<open>NULL\<close>, and a breakdown row \<^verbatim>\<open>{key, count, percentage}\<close> is a triple whose
  percentage is \<open>None\<close> when SQLite yields \<^verbatim>\<open>NULL\<close>. A percentage is a double; a double is
  written as the rational number it stands for.
\<close>

record TrafficStats =
  total_requests :: nat
  unique_visitors :: nat
  total_website_requests :: nat
  total_server_requests :: nat
  top_referrers :: "(string \<times> nat) list"

type_synonym DailyViews = "string option \<times> nat"

type_synonym BreakdownRow = "string \<times> nat \<times> rat option"

text \<open>
  The state of a \<^verbatim>\<open>TrafficDB\<close> object. \<open>db\<close> is the field \<^verbatim>\<open>this.db: Database | null\<close>:
  \<open>None\<close> is \<^verbatim>\<open>null\<close>, and a \<^verbatim>\<open>Database\<close> handle of the driver is either open or has
  been closed (a closed handle stays a non-null object). \<open>unfinalized\<close> counts the
  prepared statements of the connection that the code has left without \<^verbatim>\<open>finalize\<close>; they
  stay with the connection until the garbage collector reclaims them, and the model
  looks at the store before it does. \<open>storage\<close> is the database that \<open>dbPath\<close> names: the
  rows of table \<^verbatim>\<open>traffic\<close> and the counter SQLite keeps in \<^verbatim>\<open>sqlite_sequence\<close> for an
  \<^verbatim>\<open>AUTOINCREMENT\<close> key.
\<close>

datatype Database = Open | Closed

record traffic_table =
  rows :: "TrafficDBRecord list"
  sqlite_sequence :: int

record TrafficDB =
  dbPath :: string
  db :: "Database option"
  unfinalized :: nat
  storage :: traffic_table

text \<open>
  The ways a call fails: \<^verbatim>\<open>throw new Error("Database not initialized")\<close> of \<^verbatim>\<open>db.ts\<close>; the
  rejection \<^verbatim>\<open>SQLITE_MISUSE: Database is closed\<close> with which the driver answers every
  request on a handle that has been closed; \<^verbatim>\<open>SQLITE_MISMATCH: datatype mismatch\<close>, raised
  by a statement whose \<^verbatim>\<open>LIMIT\<close> is bound to a value that is not an integer; and
  \<^verbatim>\<open>SQLITE_BUSY\<close>, with which SQLite refuses to close a connection that still has
  statements.
\<close>

datatype error =
  NotInitializedError | DatabaseClosedError | SqliteMismatchError | SqliteBusyError

text \<open>
  A JavaScript \<^verbatim>\<open>number\<close>, for the parameter \<^verbatim>\<open>batchSize\<close>: a double is a rational, or one
  of the three values that are not.
\<close>

datatype number = Num rat | NaN | Infinity | MinusInfinity

definition empty_table :: traffic_table where
  "empty_table = \<lparr>rows = [], sqlite_sequence = 0\<rparr>"

text \<open>
  \<^verbatim>\<open>constructor(dbPath: string = ":memory:")\<close>, with \<^verbatim>\<open>db = null\<close>; \<open>disk\<close> is what the
  file at \<open>dbPath\<close> holds already.
\<close>

definition constructor :: "string option \<Rightarrow> traffic_table \<Rightarrow> TrafficDB" where
  "constructor p disk =
     \<lparr>dbPath = (case p of None \<Rightarrow> '':memory:'' | Some v \<Rightarrow> v), db = None,
      unfinalized = 0, storage = disk\<rparr>"

text \<open>
  \<^verbatim>\<open>initialize\<close> (db.ts 56-88): opens \<open>dbPath\<close> and stores the handle in \<^verbatim>\<open>this.db\<close>. SQLite
  gives every connection to \<^verbatim>\<open>:memory:\<close> a fresh database; a file keeps its content, and
  \<^verbatim>\<open>CREATE TABLE IF NOT EXISTS\<close> leaves an existing table alone. The new connection has
  no statement yet.
\<close>

definition initialize :: "TrafficDB \<Rightarrow> TrafficDB" where
  "initialize this =
     this\<lparr>db := Some Open, unfinalized := 0,
          storage := (if dbPath this = '':memory:'' then empty_table else storage this)\<rparr>"

text \<open>
  \<^verbatim>\<open>INSERT INTO traffic (...) VALUES (...)\<close> with \<^verbatim>\<open>id INTEGER PRIMARY KEY AUTOINCREMENT\<close>:
  the new id is one more than the largest id the table has ever held, which is the
  larger of \<^verbatim>\<open>sqlite_sequence\<close> and the ids present. \<^verbatim>\<open>created_at\<close> is not in the column
  list, so it takes its default \<^verbatim>\<open>unixepoch()\<close>.
\<close>

definition next_id :: "traffic_table \<Rightarrow> int" where
  "next_id t = fold max (map id_num (rows t)) (sqlite_sequence t) + 1"

definition insert_traffic :: "TrafficRecord \<Rightarrow> int \<Rightarrow> traffic_table \<Rightarrow> traffic_table" where
  "insert_traffic r unixepoch t =
     \<lparr>rows = rows t @ [TrafficRecord.extend r
                         (TrafficDBRecord.fields (next_id t) unixepoch)],
      sqlite_sequence = next_id t\<rparr>"

text \<open>
  \<^verbatim>\<open>recordTraffic\<close> (db.ts 90-124). \<open>now\<close> is \<^verbatim>\<open>Date.now()\<close>, the default of the parameter
  \<^verbatim>\<open>timestamp\<close>, and \<open>unixepoch\<close> is SQLite's clock at the insert. The result is the error
  thrown or the store after the call.
\<close>

definition recordTraffic :: "TrafficDB \<Rightarrow> int \<Rightarrow> int \<Rightarrow> TrafficRecord \<Rightarrow> error + TrafficDB" where
  "recordTraffic this now unixepoch r =
     (case db this of
        None \<Rightarrow> Inl NotInitializedError
      | Some Closed \<Rightarrow> Inl DatabaseClosedError
      | Some Open \<Rightarrow>
          Inr (this\<lparr>storage :=
                 insert_traffic
                   (r\<lparr>timestamp := Some (case timestamp r of None \<Rightarrow> now | Some t \<Rightarrow> t)\<rparr>)
                   unixepoch (storage this)\<rparr>))"

section \<open>Cursor stream reader\<close>

text \<open>
  \<^verbatim>\<open>LIMIT ?\<close> with the parameter bound to a JavaScript number. SQLite takes the number
  when it is a whole number strictly between its smallest and largest 64-bit integer,
  a negative one meaning no limit; for any other number, and for \<^verbatim>\<open>NaN\<close>, which the
  driver binds as \<^verbatim>\<open>NULL\<close>, the statement fails with a datatype mismatch.
\<close>

definition sql_limit :: "number \<Rightarrow> 'a list \<Rightarrow> error + 'a list" where
  "sql_limit n xs =
     (case n of
        Num r \<Rightarrow>
          if r = of_int \<lfloor>r\<rfloor> \<and> - 9223372036854775808 < r \<and> r < 9223372036854775807
          then Inr (if r < 0 then xs else take (nat \<lfloor>r\<rfloor>) xs)
          else Inl SqliteMismatchError
      | _ \<Rightarrow> Inl SqliteMismatchError)"

text \<open>
  \<^verbatim>\<open>WHERE site_id = ? AND timestamp >= ? AND timestamp <= ?\<close>; a comparison with \<^verbatim>\<open>NULL\<close>
  is not true.
\<close>

definition where_site_time :: "string \<Rightarrow> int \<Rightarrow> int \<Rightarrow> TrafficDBRecord \<Rightarrow> bool" where
  "where_site_time site startTime endTime r =
     (siteId r = site \<and>
      (case timestamp r of None \<Rightarrow> False | Some t \<Rightarrow> startTime \<le> t \<and> t \<le> endTime))"

text \<open>The batch query of \<^verbatim>\<open>queryTrafficStream\<close> (db.ts 139-155).\<close>

definition select_batch ::
  "TrafficDBRecord list \<Rightarrow> string \<Rightarrow> int \<Rightarrow> int \<Rightarrow> int \<Rightarrow> number
     \<Rightarrow> error + TrafficDBRecord list" where
  "select_batch tbl site startTime endTime lastId batchSize =
     sql_limit batchSize
       (sort_key id_num
          (filter (\<lambda>r. where_site_time site startTime endTime r \<and> lastId < id_num r) tbl))"

text \<open>
  The loop \<^verbatim>\<open>while (true)\<close> of \<^verbatim>\<open>queryTrafficStream\<close> (db.ts 138-166) over a table that does
  not change during the scan: fetch a batch, stop when it is empty, otherwise yield its
  records in order and leave \<^verbatim>\<open>lastId\<close> at the id of the last one. A batch that throws
  ends the stream with its error; the batch size being the same in every round, only
  the first batch can throw, before any record is yielded.
\<close>

function stream_loop ::
  "TrafficDBRecord list \<Rightarrow> string \<Rightarrow> int \<Rightarrow> int \<Rightarrow> number \<Rightarrow> int
     \<Rightarrow> error + TrafficDBRecord list" where
  "stream_loop tbl site startTime endTime batchSize lastId =
     (case select_batch tbl site startTime endTime lastId batchSize of
        Inl err \<Rightarrow> Inl err
      | Inr batch \<Rightarrow>
          if batch = [] then Inr []
          else (case stream_loop tbl site startTime endTime batchSize (id_num (last batch)) of
                  Inl err \<Rightarrow> Inl err
                | Inr rest \<Rightarrow> Inr (batch @ rest)))"
  by pat_completeness auto

lemma select_batch_subset:
  assumes "select_batch tbl site startTime endTime lastId batchSize = Inr batch"
  shows "set batch \<subseteq> {r \<in> set tbl. lastId < id_num r}"
proof -
  have "set ys \<subseteq> set xs" if "sql_limit batchSize xs = Inr ys"
    for xs ys :: "TrafficDBRecord list"
    using that
    by (auto simp: sql_limit_def split: number.splits if_splits dest: in_set_takeD)
  from this [OF assms [unfolded select_batch_def]] show ?thesis
    by auto
qed

lemma stream_loop_measure:
  assumes "select_batch tbl site startTime endTime lastId batchSize = Inr batch"
    and "batch \<noteq> []"
  shows "length (filter (\<lambda>r. id_num (last batch) < id_num r) tbl)
           < length (filter (\<lambda>r. lastId < id_num r) tbl)"
proof -
  let ?big = "filter (\<lambda>r. lastId < id_num r) tbl"
  have mem: "last batch \<in> set tbl" and gt: "lastId < id_num (last batch)"
    using select_batch_subset [OF assms(1)] last_in_set [OF assms(2)] by auto
  have eq: "filter (\<lambda>r. id_num (last batch) < id_num r) tbl
              = filter (\<lambda>r. id_num (last batch) < id_num r) ?big"
    using gt by (auto intro: filter_cong)
  have "last batch \<in> set ?big"
    using mem gt by simp
  then have "length (filter (\<lambda>r. id_num (last batch) < id_num r) ?big) < length ?big"
    by (rule length_filter_less) simp
  with eq show ?thesis by simp
qed

termination stream_loop
  by (relation "measure (\<lambda>(tbl, site, startTime, endTime, batchSize, lastId).
                   length (filter (\<lambda>r. lastId < id_num r) tbl))")
     (simp_all add: stream_loop_measure)

declare stream_loop.simps [simp del]

text \<open>
  \<^verbatim>\<open>queryTrafficStream\<close> (db.ts 126-167) run to its end: the sequence of records it yields,
  or the error it throws before the first one. \<^verbatim>\<open>batchSize = 1000\<close> is the default of an
  absent parameter, and \<^verbatim>\<open>lastId\<close> starts at 0.
\<close>

definition queryTrafficStream ::
  "TrafficDB \<Rightarrow> string \<Rightarrow> int \<Rightarrow> int \<Rightarrow> number option \<Rightarrow> error + TrafficDBRecord list" where
  "queryTrafficStream this site startTime endTime batchSize =
     (case db this of
        None \<Rightarrow> Inl NotInitializedError
      | Some Closed \<Rightarrow> Inl DatabaseClosedError
      | Some Open \<Rightarrow>
          stream_loop (rows (storage this)) site startTime endTime
            (case batchSize of None \<Rightarrow> Num 1000 | Some b \<Rightarrow> b) 0)"

text \<open>\<^verbatim>\<open>queryTraffic\<close> (db.ts 169-175) pushes every record of the stream onto a list.\<close>

definition queryTraffic ::
  "TrafficDB \<Rightarrow> string \<Rightarrow> int \<Rightarrow> int \<Rightarrow> number option \<Rightarrow> error + TrafficDBRecord list" where
  "queryTraffic this site startTime endTime batchSize =
     (case queryTrafficStream this site startTime endTime batchSize of
        Inl e \<Rightarrow> Inl e
      | Inr records \<Rightarrow> Inr (foldl (\<lambda>results record. results @ [record]) [] records))"

text \<open>
  The store after the stream has run. The statement of a batch is finalized on the line
  after \<^verbatim>\<open>stmt.all\<close> (db.ts 156); when \<^verbatim>\<open>stmt.all\<close> throws, that line is not reached and
  the statement stays with the connection.
\<close>

definition after_stream :: "error + TrafficDBRecord list \<Rightarrow> TrafficDB \<Rightarrow> TrafficDB" where
  "after_stream outcome this =
     (if outcome = Inl SqliteMismatchError
      then this\<lparr>unfinalized := Suc (unfinalized this)\<rparr> else this)"

section \<open>Dates of SQLite\<close>

text \<open>
  SQLite computes with day numbers and passes dates between its functions as text
  \<^verbatim>\<open>YYYY-MM-DD\<close>. Within the years 0000 to 9999 that text has a fixed width, so two
  dates are equal, or one sorts before the other, exactly when their day numbers are. A
  date value is modelled by its day number counted from 1970-01-01, \<open>None\<close> being
  \<^verbatim>\<open>NULL\<close>, and is turned into text only in the rows returned (\<open>date_text\<close>). Before the
  year 0000 SQLite prints a signed year, whose text no longer sorts by time; the
  model treats those times like the ones SQLite rejects.

  \<^verbatim>\<open>date(s, 'unixepoch')\<close>: the day of second \<open>s\<close>; \<^verbatim>\<open>NULL\<close> outside 0000-01-01 to
  9999-12-31.
\<close>

definition date_unixepoch :: "int \<Rightarrow> int option" where
  "date_unixepoch s =
     (if - 62167219200 \<le> s \<and> s < 253402300800 then Some (s div 86400) else None)"

text \<open>\<^verbatim>\<open>date(d, '+1 day')\<close>; day 2932896 is 9999-12-31.\<close>

definition date_plus_1_day :: "int option \<Rightarrow> int option" where
  "date_plus_1_day d =
     (case d of None \<Rightarrow> None | Some n \<Rightarrow> if n + 1 \<le> 2932896 then Some (n + 1) else None)"

text \<open>\<^verbatim>\<open>a < b\<close> and \<^verbatim>\<open>a = b\<close> of SQL hold only between two values that are not \<^verbatim>\<open>NULL\<close>.\<close>

definition sql_less :: "int option \<Rightarrow> int option \<Rightarrow> bool" where
  "sql_less a b = (case (a, b) of (Some x, Some y) \<Rightarrow> x < y | _ \<Rightarrow> False)"

definition sql_eq :: "int option \<Rightarrow> int option \<Rightarrow> bool" where
  "sql_eq a b = (case (a, b) of (Some x, Some y) \<Rightarrow> x = y | _ \<Rightarrow> False)"

text \<open>
  The year, month and day of a day number in the proleptic Gregorian calendar, which is
  the calendar of SQLite's date functions.
\<close>

definition civil_from_days :: "int \<Rightarrow> int \<times> int \<times> int" where
  "civil_from_days n =
     (let z = n + 719468;
          era = z div 146097;
          doe = z mod 146097;
          yoe = (doe - doe div 1460 + doe div 36524 - doe div 146096) div 365;
          doy = doe - (365 * yoe + yoe div 4 - yoe div 100);
          mp = (5 * doy + 2) div 153;
          d = doy - (153 * mp + 2) div 5 + 1;
          m = (if mp < 10 then mp + 3 else mp - 9);
          y = yoe + era * 400 + (if m \<le> 2 then 1 else 0)
      in (y, m, d))"

definition digit :: "int \<Rightarrow> char" where
  "digit n = ''0123456789'' ! nat (n mod 10)"

text \<open>The text \<^verbatim>\<open>YYYY-MM-DD\<close> of a day, digit by digit as SQLite writes it.\<close>

definition date_text :: "int \<Rightarrow> string" where
  "date_text n =
     (case civil_from_days n of (y, m, d) \<Rightarrow>
        [digit (y div 1000), digit (y div 100), digit (y div 10), digit y, CHR ''-'',
         digit (m div 10), digit m, CHR ''-'', digit (d div 10), digit d])"

section \<open>Daily views\<close>

text \<open>
  The recursive common table expression of \<^verbatim>\<open>getDailyViews\<close> (db.ts 188-194):
  \<^verbatim>\<open>SELECT date(?, 'unixepoch') UNION ALL SELECT date(date, '+1 day') FROM dates
  WHERE date < date(?, 'unixepoch')\<close>. \<open>dates d e\<close> is the table from the row \<open>d\<close> on,
  \<open>e\<close> being the date of the second parameter.
\<close>

function dates :: "int option \<Rightarrow> int option \<Rightarrow> int option list" where
  "dates d e = d # (if sql_less d e then dates (date_plus_1_day d) e else [])"
  by pat_completeness auto
termination
  by (relation "measure (\<lambda>(d, e). case (d, e) of (Some x, Some y) \<Rightarrow> nat (y - x) | _ \<Rightarrow> 0)")
     (auto simp: sql_less_def date_plus_1_day_def split: option.splits)

declare dates.simps [simp del]

text \<open>
  \<^verbatim>\<open>ls LEFT JOIN rs ON on\<close>: every left row with each right row that matches it, or
  once with \<^verbatim>\<open>NULL\<close>s when none does.
\<close>

definition left_join :: "'a list \<Rightarrow> 'b list \<Rightarrow> ('a \<Rightarrow> 'b \<Rightarrow> bool) \<Rightarrow> ('a \<times> 'b option) list" where
  "left_join ls rs on =
     concat (map (\<lambda>l. if filter (on l) rs = [] then [(l, None)]
                       else map (\<lambda>r. (l, Some r)) (filter (on l) rs)) ls)"

text \<open>
  The query of \<^verbatim>\<open>getDailyViews\<close> and \<^verbatim>\<open>getDailyViewsByPath\<close> (db.ts 186-205, 224-244) on
  the seconds \<open>s\<close> and \<open>e\<close>; \<open>on_traffic\<close> is the part of the join condition that looks at
  the traffic row alone (\<^verbatim>\<open>traffic.site_id = ?\<close>, and \<^verbatim>\<open>traffic.path = ?\<close> when present).
  \<^verbatim>\<open>GROUP BY dates.date\<close> makes one group per distinct date, \<^verbatim>\<open>COUNT(traffic.id)\<close> counts
  the joined rows of the group whose id is not \<^verbatim>\<open>NULL\<close>, and \<^verbatim>\<open>ORDER BY dates.date ASC\<close>
  sorts the groups, \<^verbatim>\<open>NULL\<close> first.
\<close>

definition daily_views_query ::
  "TrafficDBRecord list \<Rightarrow> int \<Rightarrow> int \<Rightarrow> (TrafficDBRecord \<Rightarrow> bool) \<Rightarrow> DailyViews list" where
  "daily_views_query tbl s e on_traffic =
     (let joined = left_join (dates (date_unixepoch s) (date_unixepoch e)) tbl
                     (\<lambda>d r. on_traffic r \<and> sql_eq (date_unixepoch (created_at r)) d)
      in map (\<lambda>d. (map_option date_text d,
                    length (filter (\<lambda>(d', r). d' = d \<and> r \<noteq> None) joined)))
           (sort (remdups (map fst joined))))"

text \<open>
  \<^verbatim>\<open>getDailyViews\<close> (db.ts 177-212). \<^verbatim>\<open>Math.floor(startTime / 1000)\<close> is \<open>startTime div 1000\<close>:
  \<open>div\<close> on \<open>int\<close> rounds down.
\<close>

definition getDailyViews :: "TrafficDB \<Rightarrow> string \<Rightarrow> int \<Rightarrow> int \<Rightarrow> error + DailyViews list" where
  "getDailyViews this site startTime endTime =
     (case db this of
        None \<Rightarrow> Inl NotInitializedError
      | Some Closed \<Rightarrow> Inl DatabaseClosedError
      | Some Open \<Rightarrow>
          Inr (daily_views_query (rows (storage this)) (startTime div 1000) (endTime div 1000)
                 (\<lambda>r. siteId r = site)))"

text \<open>
  JavaScript's truth value of the optional string \<^verbatim>\<open>path\<close>: \<^verbatim>\<open>undefined\<close> and the empty
  string are false.
\<close>

definition truthy :: "string option \<Rightarrow> bool" where
  "truthy p = (case p of None \<Rightarrow> False | Some v \<Rightarrow> v \<noteq> [])"

text \<open>
  \<^verbatim>\<open>getDailyViewsByPath\<close> (db.ts 214-252): the join condition gains
  \<^verbatim>\<open>AND traffic.path = ?\<close> only when \<^verbatim>\<open>path\<close> is truthy.
\<close>

definition getDailyViewsByPath ::
  "TrafficDB \<Rightarrow> string \<Rightarrow> int \<Rightarrow> int \<Rightarrow> string option \<Rightarrow> error + DailyViews list" where
  "getDailyViewsByPath this site startTime endTime p =
     (case db this of
        None \<Rightarrow> Inl NotInitializedError
      | Some Closed \<Rightarrow> Inl DatabaseClosedError
      | Some Open \<Rightarrow>
          Inr (daily_views_query (rows (storage this)) (startTime div 1000) (endTime div 1000)
                 (\<lambda>r. siteId r = site \<and> (if truthy p then path r = p else True))))"

section \<open>Summary statistics and breakdowns\<close>

text \<open>
  \<^verbatim>\<open>SELECT col, COUNT(*) ... GROUP BY col\<close>: one row per distinct value of the column,
  \<^verbatim>\<open>NULL\<close> being one value, with the number of rows that carry it. SQL leaves the order
  of the groups to the engine; the model lists them by the last row of each.
\<close>

definition group_by_count :: "('r \<Rightarrow> 'k) \<Rightarrow> 'r list \<Rightarrow> ('k \<times> nat) list" where
  "group_by_count col xs =
     map (\<lambda>k. (k, length (filter (\<lambda>r. col r = k) xs))) (remdups (map col xs))"

text \<open>\<^verbatim>\<open>COALESCE(x, dflt)\<close>.\<close>

definition coalesce :: "'a option \<Rightarrow> 'a \<Rightarrow> 'a" where
  "coalesce x dflt = (case x of None \<Rightarrow> dflt | Some v \<Rightarrow> v)"

text \<open>
  The first common table expression of a breakdown (db.ts 320-329, 362-371, 446-455):
  \<^verbatim>\<open>SELECT COALESCE(col, dflt) as col, COUNT(*) as count FROM traffic WHERE ... GROUP BY col\<close>.
  The name in \<^verbatim>\<open>GROUP BY\<close> is the column of the table, not the alias of the result, so the
  groups are formed on the stored values and relabelled afterwards.
\<close>

definition label_counts ::
  "(TrafficDBRecord \<Rightarrow> string option) \<Rightarrow> string \<Rightarrow> TrafficDBRecord list \<Rightarrow> (string \<times> nat) list" where
  "label_counts col dflt m = map (\<lambda>(k, c). (coalesce k dflt, c)) (group_by_count col m)"

text \<open>\<^verbatim>\<open>ORDER BY count DESC\<close>, rows of equal count staying in the order they came.\<close>

definition order_by_count_desc :: "('a \<times> nat) list \<Rightarrow> ('a \<times> nat) list" where
  "order_by_count_desc xs = sort_key (\<lambda>(k, c). - int c) xs"

text \<open>
  \<^verbatim>\<open>SUM(count)\<close> over a table: \<^verbatim>\<open>NULL\<close> when the table has no row.
\<close>

definition sql_sum :: "nat list \<Rightarrow> nat option" where
  "sql_sum cs = (if cs = [] then None else Some (sum_list cs))"

text \<open>
  The \<^verbatim>\<open>REAL\<close> values of SQLite are IEEE 754 doubles, and every operation on them gives
  the double nearest to the exact result, a tie going to the even significand. A double
  is modelled by the rational number it stands for. For \<open>a > 0\<close>, \<open>ilog2 a\<close> is the
  exponent \<open>e\<close> with \<open>2 ^ e \<le> a < 2 ^ (e + 1)\<close>; \<open>nearest_even y\<close> is the integer nearest to \<open>y\<close>,
  the even one of two equally near; and \<open>binary64 x\<close> is \<open>x\<close> rounded to a significand
  of 53 bits. The exponent is not bounded below or above: the doubles of the breakdowns
  are counts below \<open>2 ^ 63\<close>, quotients of two of them, and percentages up to 100, all
  far from overflow and from the subnormal numbers.
\<close>

definition ilog2 :: "rat \<Rightarrow> int" where
  "ilog2 a = (if 1 \<le> a then bitlen \<lfloor>a\<rfloor> - 1 else - bitlen (\<lceil>1 / a\<rceil> - 1))"

definition nearest_even :: "rat \<Rightarrow> int" where
  "nearest_even y =
     (if y - of_int \<lfloor>y\<rfloor> < 1 / 2 then \<lfloor>y\<rfloor>
      else if 1 / 2 < y - of_int \<lfloor>y\<rfloor> then \<lfloor>y\<rfloor> + 1
      else if even \<lfloor>y\<rfloor> then \<lfloor>y\<rfloor> else \<lfloor>y\<rfloor> + 1)"

definition binary64 :: "rat \<Rightarrow> rat" where
  "binary64 x =
     (if x = 0 then 0
      else sgn x * of_int (nearest_even (\<bar>x\<bar> / 2 powi (ilog2 \<bar>x\<bar> - 52)))
             * 2 powi (ilog2 \<bar>x\<bar> - 52))"

text \<open>The relative error of one operation on doubles is at most \<open>1 / 2 ^ 53\<close>.\<close>

definition unit_roundoff :: rat where
  "unit_roundoff = 1 / 2 ^ 53"

text \<open>
  The decimal rounding of \<^verbatim>\<open>ROUND(x, 2)\<close>: the hundredth nearest to the value of the
  double \<open>x\<close>, a half going away from zero. SQLite (as of version 3.46) prints the
  decimal expansion of the double with two digits after the point, rounding on the digits
  that follow, so a double that lies just below a half, such as 14.374999999999998, goes
  down although the number it approximates, 14.375, would go up.
\<close>

definition round2 :: "rat \<Rightarrow> rat" where
  "round2 x = (if 0 \<le> x then of_int \<lfloor>x * 100 + 1 / 2\<rfloor> / 100
               else - (of_int \<lfloor>- x * 100 + 1 / 2\<rfloor> / 100))"

text \<open>
  \<^verbatim>\<open>ROUND(CAST(count AS FLOAT) / total_count.total * 100, 2)\<close> (db.ts 337, 379, 463), step
  by step as SQLite evaluates it: the count is converted to a double; the integer total
  is converted to a double and the two are divided, in doubles; the quotient is
  multiplied by the double 100, in doubles; \<^verbatim>\<open>ROUND\<close> rounds the product to two decimals
  and reads the decimal text back as a double, the one nearest to it. The result is
  \<^verbatim>\<open>NULL\<close> when the total is \<^verbatim>\<open>NULL\<close>, and also when it is 0, since SQLite divides by
  zero to \<^verbatim>\<open>NULL\<close> and raises nothing.
\<close>

definition percentage :: "nat \<Rightarrow> nat option \<Rightarrow> rat option" where
  "percentage c total_count =
     (case total_count of
        None \<Rightarrow> None
      | Some t \<Rightarrow>
          if t = 0 then None
          else Some (binary64 (round2 (binary64
                 (binary64 (binary64 (of_nat c) / binary64 (of_nat t)) * 100)))))"

text \<open>
  The whole breakdown query on the rows \<open>m\<close> that pass the \<^verbatim>\<open>WHERE\<close> clause: the counts,
  the one-row table \<^verbatim>\<open>total_count\<close>, their cross join, and the final order.
\<close>

definition breakdown_query ::
  "(TrafficDBRecord \<Rightarrow> string option) \<Rightarrow> string \<Rightarrow> TrafficDBRecord list \<Rightarrow> BreakdownRow list" where
  "breakdown_query col dflt m =
     (let counts = label_counts col dflt m;
          total_count = [sql_sum (map snd counts)]
      in map (\<lambda>(k, c, tot). (k, c, percentage c tot))
           (sort_key (\<lambda>(k, c, tot). - int c)
              (concat (map (\<lambda>(k, c). map (\<lambda>tot. (k, c, tot)) total_count) counts))))"

definition getReferrerBreakdown ::
  "TrafficDB \<Rightarrow> string \<Rightarrow> int \<Rightarrow> int \<Rightarrow> error + BreakdownRow list" where
  "getReferrerBreakdown this site startTime endTime =
     (case db this of
        None \<Rightarrow> Inl NotInitializedError
      | Some Closed \<Rightarrow> Inl DatabaseClosedError
      | Some Open \<Rightarrow>
          Inr (breakdown_query referrer ''(direct)''
                 (filter (where_site_time site startTime endTime) (rows (storage this)))))"

definition getPathsBreakdown ::
  "TrafficDB \<Rightarrow> string \<Rightarrow> int \<Rightarrow> int \<Rightarrow> error + BreakdownRow list" where
  "getPathsBreakdown this site startTime endTime =
     (case db this of
        None \<Rightarrow> Inl NotInitializedError
      | Some Closed \<Rightarrow> Inl DatabaseClosedError
      | Some Open \<Rightarrow>
          Inr (breakdown_query path ''(no path)''
                 (filter (where_site_time site startTime endTime) (rows (storage this)))))"

definition getCountryBreakdown ::
  "TrafficDB \<Rightarrow> string \<Rightarrow> int \<Rightarrow> int \<Rightarrow> error + BreakdownRow list" where
  "getCountryBreakdown this site startTime endTime =
     (case db this of
        None \<Rightarrow> Inl NotInitializedError
      | Some Closed \<Rightarrow> Inl DatabaseClosedError
      | Some Open \<Rightarrow>
          Inr (breakdown_query country ''(unknown)''
                 (filter (where_site_time site startTime endTime) (rows (storage this)))))"

text \<open>
  \<^verbatim>\<open>getTrafficStats\<close> (db.ts 254-305). \<^verbatim>\<open>COUNT(DISTINCT ip_address)\<close> counts the distinct
  values that are not \<^verbatim>\<open>NULL\<close>; \<^verbatim>\<open>COUNT(CASE WHEN c THEN 1 END)\<close> counts the rows where \<open>c\<close>
  is true. An aggregate without \<^verbatim>\<open>GROUP BY\<close> always returns its one row, so the branch
  \<^verbatim>\<open>if (!basicStats)\<close> is never taken. \<^verbatim>\<open>LIMIT 10\<close> is written in the query.
\<close>

definition getTrafficStats ::
  "TrafficDB \<Rightarrow> string \<Rightarrow> int \<Rightarrow> int \<Rightarrow> error + TrafficStats" where
  "getTrafficStats this site startTime endTime =
     (case db this of
        None \<Rightarrow> Inl NotInitializedError
      | Some Closed \<Rightarrow> Inl DatabaseClosedError
      | Some Open \<Rightarrow>
          (let m = filter (where_site_time site startTime endTime) (rows (storage this))
           in Inr \<lparr>total_requests = length m,
                   unique_visitors =
                     length (remdups (filter (\<lambda>ip. ip \<noteq> None) (map ipAddress m))),
                   total_website_requests =
                     length (filter (\<lambda>r. requestType r = Some ''static'' \<or> requestType r = None) m),
                   total_server_requests =
                     length (filter (\<lambda>r. requestType r = Some ''api'') m),
                   top_referrers =
                     take 10 (order_by_count_desc (label_counts referrer ''(direct)'' m))\<rparr>))"

text \<open>
  \<^verbatim>\<open>getLatestTraffic\<close> (db.ts 387-422): the \<^verbatim>\<open>WHERE\<close> clause is present only for a truthy
  \<^verbatim>\<open>siteId\<close>.
\<close>

definition getLatestTraffic :: "TrafficDB \<Rightarrow> string option \<Rightarrow> error + TrafficDBRecord list" where
  "getLatestTraffic this site =
     (case db this of
        None \<Rightarrow> Inl NotInitializedError
      | Some Closed \<Rightarrow> Inl DatabaseClosedError
      | Some Open \<Rightarrow>
          Inr (take 100
                 (sort_key (\<lambda>r. - id_num r)
                    (filter (\<lambda>r. if truthy site then Some (siteId r) = site else True)
                       (rows (storage this))))))"

section \<open>Closing, and the store as a state machine\<close>

text \<open>
  \<^verbatim>\<open>close\<close> (db.ts 471-475): \<^verbatim>\<open>if (this.db) { await this.db.close(); }\<close>. The field
  \<^verbatim>\<open>this.db\<close> is not reset, so after the call it still holds the handle, now closed; the
  driver rejects \<^verbatim>\<open>close\<close> on a closed handle like any other request. SQLite does not
  close a connection that still has statements: the call is rejected and the handle
  stays open. The result is what the call returns or throws, and the store after it.
\<close>

definition close :: "TrafficDB \<Rightarrow> (error + unit) \<times> TrafficDB" where
  "close this =
     (case db this of
        None \<Rightarrow> (Inr (), this)
      | Some Open \<Rightarrow>
          if unfinalized this = 0 then (Inr (), this\<lparr>db := Some Closed\<rparr>)
          else (Inl SqliteBusyError, this)
      | Some Closed \<Rightarrow> (Inl DatabaseClosedError, this))"

text \<open>
  The calls a client can make on a store after it has been constructed and opened, and
  what each returns. \<open>exec\<close> runs one call and gives its outcome and the store after it:
  only \<^verbatim>\<open>recordTraffic\<close> and \<^verbatim>\<open>close\<close> assign anything, and a call that throws leaves the
  table and the handle as they were.
\<close>

datatype call =
    RecordTraffic int int TrafficRecord
  | QueryTrafficStream string int int "number option"
  | QueryTraffic string int int "number option"
  | GetDailyViews string int int
  | GetDailyViewsByPath string int int "string option"
  | GetTrafficStats string int int
  | GetReferrerBreakdown string int int
  | GetPathsBreakdown string int int
  | GetLatestTraffic "string option"
  | GetCountryBreakdown string int int
  | Close

datatype response =
    Done
  | Records "TrafficDBRecord list"
  | Daily "DailyViews list"
  | Stats TrafficStats
  | Breakdown "BreakdownRow list"

fun exec :: "call \<Rightarrow> TrafficDB \<Rightarrow> (error + response) \<times> TrafficDB" where
  "exec (RecordTraffic now unixepoch r) this =
     (case recordTraffic this now unixepoch r of
        Inl e \<Rightarrow> (Inl e, this) | Inr this' \<Rightarrow> (Inr Done, this'))"
| "exec (QueryTrafficStream site s e b) this =
     (map_sum (\<lambda>e. e) Records (queryTrafficStream this site s e b),
      after_stream (queryTrafficStream this site s e b) this)"
| "exec (QueryTraffic site s e b) this =
     (map_sum (\<lambda>e. e) Records (queryTraffic this site s e b),
      after_stream (queryTraffic this site s e b) this)"
| "exec (GetDailyViews site s e) this =
     (map_sum (\<lambda>e. e) Daily (getDailyViews this site s e), this)"
| "exec (GetDailyViewsByPath site s e p) this =
     (map_sum (\<lambda>e. e) Daily (getDailyViewsByPath this site s e p), this)"
| "exec (GetTrafficStats site s e) this =
     (map_sum (\<lambda>e. e) Stats (getTrafficStats this site s e), this)"
| "exec (GetReferrerBreakdown site s e) this =
     (map_sum (\<lambda>e. e) Breakdown (getReferrerBreakdown this site s e), this)"
| "exec (GetPathsBreakdown site s e) this =
     (map_sum (\<lambda>e. e) Breakdown (getPathsBreakdown this site s e), this)"
| "exec (GetLatestTraffic site) this =
     (map_sum (\<lambda>e. e) Records (getLatestTraffic this site), this)"
| "exec (GetCountryBreakdown site s e) this =
     (map_sum (\<lambda>e. e) Breakdown (getCountryBreakdown this site s e), this)"
| "exec Close this =
     (case close this of (res, this') \<Rightarrow> (map_sum (\<lambda>e. e) (\<lambda>u. Done) res, this'))"

text \<open>A sequence of calls, each on the store the one before left.\<close>

definition run :: "call list \<Rightarrow> TrafficDB \<Rightarrow> TrafficDB" where
  "run cs this = fold (\<lambda>c s. snd (exec c s)) cs this"

section \<open>Vocabulary of the statements\<close>

text \<open>
  What \<^verbatim>\<open>AUTOINCREMENT\<close> maintains for a table that only \<open>insert_traffic\<close> has written:
  the rows lie in ascending id order, the counter is not negative, every id is positive,
  and no id exceeds the counter.
\<close>

definition wf_table :: "traffic_table \<Rightarrow> bool" where
  "wf_table t =
     (sorted_wrt (<) (map id_num (rows t)) \<and> 0 \<le> sqlite_sequence t \<and>
      list_all (\<lambda>r. 0 < id_num r \<and> id_num r \<le> sqlite_sequence t) (rows t))"

text \<open>
  What a run keeps true of the table, relative to the table \<open>t0\<close> it started from: the
  old rows are still there, unchanged and in place, and every row after them has an id
  above the counter of \<open>t0\<close>, hence above every id \<open>t0\<close> has ever held.
\<close>

definition extends :: "traffic_table \<Rightarrow> traffic_table \<Rightarrow> bool" where
  "extends t0 t =
     (wf_table t \<and> prefix (rows t0) (rows t) \<and> sqlite_sequence t0 \<le> sqlite_sequence t \<and>
      list_all (\<lambda>r. sqlite_sequence t0 < id_num r) (drop (length (rows t0)) (rows t)))"

text \<open>The rows that pass the \<^verbatim>\<open>WHERE\<close> clause of the statistics and breakdown queries.\<close>

definition matching :: "TrafficDB \<Rightarrow> string \<Rightarrow> int \<Rightarrow> int \<Rightarrow> TrafficDBRecord list" where
  "matching this site startTime endTime =
     filter (where_site_time site startTime endTime) (rows (storage this))"


text \<open>The store with only the events of one path.\<close>

definition only_path :: "string option \<Rightarrow> TrafficDB \<Rightarrow> TrafficDB" where
  "only_path p this =
     this\<lparr>storage := (storage this)\<lparr>rows := filter (\<lambda>r. path r = p) (rows (storage this))\<rparr>\<rparr>"

text \<open>Rows for the examples: an event of a site at a time, with an id.\<close>

definition event :: "int \<Rightarrow> string \<Rightarrow> int \<Rightarrow> TrafficDBRecord" where
  "event i site t =
     \<lparr>siteId = site, path = None, userAgent = None, ipAddress = None, country = None,
      city = None, referrer = None, requestType = None, timestamp = Some t,
      id_num = i, created_at = t div 1000\<rparr>"

definition open_store :: "TrafficDBRecord list \<Rightarrow> TrafficDB" where
  "open_store rs =
     \<lparr>dbPath = ''traffic.db'', db = Some Open, unfinalized = 0,
      storage = \<lparr>rows = rs, sqlite_sequence = int (length rs)\<rparr>\<rparr>"

text \<open>An argument of \<^verbatim>\<open>recordTraffic\<close> for the examples: a site and nothing else.\<close>

definition visit :: "string \<Rightarrow> TrafficRecord" where
  "visit site =
     \<lparr>siteId = site, path = None, userAgent = None, ipAddress = None, country = None,
      city = None, referrer = None, requestType = None, timestamp = None\<rparr>"

section \<open>Well-formed tables\<close>

lemma wf_empty_table: "wf_table empty_table"
  by (simp add: wf_table_def empty_table_def)

lemma next_id_wf:
  assumes "wf_table t"
  shows "next_id t = sqlite_sequence t + 1"
proof -
  have "list_all (\<lambda>r. id_num r \<le> m) xs \<Longrightarrow> fold max (map id_num xs) m = m"
    for xs :: "TrafficDBRecord list" and m :: int
    by (induction xs) (simp_all add: max_def)
  moreover have "list_all (\<lambda>r. id_num r \<le> sqlite_sequence t) (rows t)"
    using assms by (simp add: wf_table_def list_all_iff)
  ultimately show ?thesis by (simp add: next_id_def)
qed

lemma rows_insert_traffic:
  "rows (insert_traffic r u t) =
     rows t @ [TrafficRecord.extend r (TrafficDBRecord.fields (next_id t) u)]"
  by (simp add: insert_traffic_def)

lemma id_num_extend [simp]:
  "id_num (TrafficRecord.extend r (TrafficDBRecord.fields i u)) = i"
  by (simp add: TrafficRecord.extend_def TrafficDBRecord.fields_def)

lemma wf_insert_traffic:
  assumes "wf_table t"
  shows "wf_table (insert_traffic r u t)"
proof -
  have n: "next_id t = sqlite_sequence t + 1"
    by (rule next_id_wf [OF assms])
  have old: "\<forall>x\<in>set (rows t). 0 < id_num x \<and> id_num x \<le> sqlite_sequence t"
    using assms by (simp add: wf_table_def list_all_iff)
  have "sorted_wrt (<) (map id_num (rows t) @ [sqlite_sequence t + 1])"
    unfolding sorted_wrt_append using assms old by (auto simp: wf_table_def)
  then show ?thesis
    using old assms
    by (auto simp: wf_table_def list_all_iff insert_traffic_def n)
qed

section \<open>The stream returns the matching events\<close>

lemma strict_sorted_map_filter:
  "sorted_wrt (<) (map f xs) \<Longrightarrow> sorted_wrt (<) (map f (filter P xs))"
  by (induction xs) auto

lemma filter_after_last_take:
  fixes f :: "'a \<Rightarrow> int"
  assumes "sorted_wrt (<) (map f xs)" "take k xs \<noteq> []"
  shows "filter (\<lambda>r. f (last (take k xs)) < f r) xs = drop k xs"
proof -
  let ?l = "f (last (take k xs))"
  have split: "sorted_wrt (<) (map f (take k xs @ drop k xs))"
    using assms(1) by simp
  have a: "\<forall>x\<in>set (take k xs). \<not> ?l < f x"
  proof
    fix x assume x: "x \<in> set (take k xs)"
    have "sorted_wrt (<) (map f (take k xs))"
      using split unfolding map_append sorted_wrt_append by blast
    then have "sorted (map f (take k xs))" by (rule strict_sorted_imp_sorted)
    moreover have tk: "take k xs = butlast (take k xs) @ [last (take k xs)]"
      using assms(2) by simp
    ultimately have "sorted (map f (butlast (take k xs)) @ [?l])"
      by (metis map_append list.simps(8,9))
    then have "\<forall>y\<in>set (butlast (take k xs)). f y \<le> ?l"
      by (simp add: sorted_append)
    moreover have "x \<in> set (butlast (take k xs)) \<or> x = last (take k xs)"
      using x by (subst (asm) tk) auto
    ultimately show "\<not> ?l < f x" by auto
  qed
  have b: "\<forall>x\<in>set (drop k xs). ?l < f x"
    using split assms(2) unfolding map_append sorted_wrt_append by auto
  have "filter (\<lambda>r. ?l < f r) (take k xs @ drop k xs) = drop k xs"
    unfolding filter_append using a b by (simp add: filter_empty_conv filter_id_conv)
  then show ?thesis by simp
qed

lemma sql_limit_take:
  assumes "n \<noteq> 0" and "- 9223372036854775808 < n" and "n < 9223372036854775807"
  shows "\<exists>k>0. sql_limit (Num (of_int n)) xs = Inr (take k xs)"
proof (cases "n < 0")
  case True
  then have "sql_limit (Num (of_int n)) xs = Inr (take (Suc (length xs)) xs)"
    using assms by (simp add: sql_limit_def)
  then show ?thesis by blast
next
  case False
  then have "sql_limit (Num (of_int n)) xs = Inr (take (nat n) xs)" and "0 < nat n"
    using assms by (simp_all add: sql_limit_def)
  then show ?thesis by blast
qed

lemma select_batch_sorted:
  assumes "sorted_wrt (<) (map id_num tbl)"
  shows "select_batch tbl site s e lastId n =
           sql_limit n (filter (\<lambda>r. where_site_time site s e r \<and> lastId < id_num r) tbl)"
proof -
  have "sorted_wrt (<) (map id_num
          (filter (\<lambda>r. where_site_time site s e r \<and> lastId < id_num r) tbl))"
    using assms by (rule strict_sorted_map_filter)
  then show ?thesis
    unfolding select_batch_def
    by (simp add: sort_key_id_if_sorted strict_sorted_imp_sorted)
qed

lemma stream_loop_sorted:
  assumes "sorted_wrt (<) (map id_num tbl)"
    and "n \<noteq> 0" and "- 9223372036854775808 < n" and "n < 9223372036854775807"
  shows "stream_loop tbl site s e (Num (of_int n)) lastId =
           Inr (filter (\<lambda>r. where_site_time site s e r \<and> lastId < id_num r) tbl)"
  using assms(1)
proof (induction tbl site s e "Num (of_int n)" lastId rule: stream_loop.induct)
  case (1 tbl site s e lastId)
  let ?F = "filter (\<lambda>r. where_site_time site s e r \<and> lastId < id_num r) tbl"
  obtain k where k: "0 < k" "sql_limit (Num (of_int n)) ?F = Inr (take k ?F)"
    using sql_limit_take [OF assms(2-4)] by blast
  have b: "select_batch tbl site s e lastId (Num (of_int n)) = Inr (take k ?F)"
    using select_batch_sorted [OF "1.prems"] k by simp
  have sF: "sorted_wrt (<) (map id_num ?F)"
    using "1.prems" by (rule strict_sorted_map_filter)
  show ?case
  proof (cases "take k ?F = []")
    case True
    then have "?F = []" using k by simp
    with True b show ?thesis by (subst stream_loop.simps) simp
  next
    case False
    have gt: "lastId < id_num (last (take k ?F))"
      using select_batch_subset [OF b] last_in_set [OF False] by auto
    have "stream_loop tbl site s e (Num (of_int n)) (id_num (last (take k ?F)))
            = Inr (filter (\<lambda>r. where_site_time site s e r
                                 \<and> id_num (last (take k ?F)) < id_num r) tbl)"
      using "1.hyps" [OF b False] "1.prems" by simp
    also have "filter (\<lambda>r. where_site_time site s e r \<and> id_num (last (take k ?F)) < id_num r) tbl
                 = filter (\<lambda>r. id_num (last (take k ?F)) < id_num r) ?F"
      using gt by (auto intro: filter_cong)
    also have "\<dots> = drop k ?F"
      using filter_after_last_take [OF sF False] .
    finally have "stream_loop tbl site s e (Num (of_int n)) lastId
                    = Inr (take k ?F @ drop k ?F)"
      using False b by (subst stream_loop.simps) simp
    then show ?thesis by simp
  qed
qed

lemma stream_loop_zero_batch: "stream_loop tbl site s e (Num 0) lastId = Inr []"
  by (subst stream_loop.simps) (simp add: select_batch_def sql_limit_def)

lemma stream_loop_mismatch:
  "sql_limit n ([] :: TrafficDBRecord list) = Inl SqliteMismatchError
     \<Longrightarrow> stream_loop tbl site s e n lastId = Inl SqliteMismatchError"
  by (subst stream_loop.simps)
     (auto simp: select_batch_def sql_limit_def split: number.splits if_splits)

lemma foldl_push: "foldl (\<lambda>results record. results @ [record]) acc xs = acc @ xs"
  by (induction xs arbitrary: acc) simp_all

text \<open>
  Claim C1, as the code has it. On an open store whose table is well formed, and for
  every \<open>batchSize\<close> that is absent or a whole number other than 0 within the 64-bit
  integers SQLite takes for \<^verbatim>\<open>LIMIT\<close> (a negative one is no limit),
  \<open>queryTrafficStream\<close> and its eager wrapper \<open>queryTraffic\<close> return exactly the rows of
  the table whose \<open>siteId\<close> matches and whose \<open>timestamp\<close> lies in
  \<open>[startTime, endTime]\<close>, both ends included, each once, in ascending id order; the
  result does not depend on \<open>batchSize\<close>.
\<close>

theorem queryTrafficStream_exact:
  assumes "wf_table (storage this)" and "db this = Some Open"
    and "batchSize = None \<or> batchSize = Some (Num (of_int n))"
    and "n \<noteq> 0" and "- 9223372036854775808 < n" and "n < 9223372036854775807"
  shows "queryTrafficStream this site startTime endTime batchSize =
           Inr (filter (where_site_time site startTime endTime) (rows (storage this)))
         \<and> queryTraffic this site startTime endTime batchSize =
           Inr (filter (where_site_time site startTime endTime) (rows (storage this)))
         \<and> sorted_wrt (<) (map id_num
             (filter (where_site_time site startTime endTime) (rows (storage this))))
         \<and> distinct (filter (where_site_time site startTime endTime) (rows (storage this)))"
proof -
  let ?tbl = "rows (storage this)"
  let ?b = "case batchSize of None \<Rightarrow> Num 1000 | Some b \<Rightarrow> b"
  have srt: "sorted_wrt (<) (map id_num ?tbl)"
    and pos: "\<forall>r\<in>set ?tbl. 0 < id_num r"
    using assms(1) by (simp_all add: wf_table_def list_all_iff)
  have "stream_loop ?tbl site startTime endTime ?b 0
          = Inr (filter (\<lambda>r. where_site_time site startTime endTime r \<and> 0 < id_num r) ?tbl)"
  proof (cases batchSize)
    case None
    then show ?thesis
      using stream_loop_sorted [OF srt, of 1000 site startTime endTime 0] by simp
  next
    case (Some b)
    then have "b = Num (of_int n)" using assms(3) by simp
    with Some show ?thesis
      using stream_loop_sorted [OF srt assms(4-6), of site startTime endTime 0] by simp
  qed
  also have "filter (\<lambda>r. where_site_time site startTime endTime r \<and> 0 < id_num r) ?tbl
               = filter (where_site_time site startTime endTime) ?tbl"
    using pos by (auto intro: filter_cong)
  finally have stream: "queryTrafficStream this site startTime endTime batchSize =
      Inr (filter (where_site_time site startTime endTime) ?tbl)"
    using assms(2) by (simp add: queryTrafficStream_def)
  have dist: "distinct ?tbl"
    using srt by (metis distinct_map strict_sorted_iff)
  have "sorted_wrt (<) (map id_num (filter (where_site_time site startTime endTime) ?tbl))"
    using srt by (rule strict_sorted_map_filter)
  with stream dist show ?thesis
    by (simp add: queryTraffic_def foldl_push)
qed

theorem queryTrafficStream_exact_witness:
  "wf_table (storage (open_store [event 1 ''a'' 5, event 2 ''b'' 6, event 3 ''a'' 7, event 4 ''a'' 20]))
   \<and> db (open_store [event 1 ''a'' 5, event 2 ''b'' 6, event 3 ''a'' 7, event 4 ''a'' 20]) = Some Open
   \<and> (1::int) \<noteq> 0 \<and> - 9223372036854775808 < (1::int) \<and> (1::int) < 9223372036854775807
   \<and> queryTrafficStream
       (open_store [event 1 ''a'' 5, event 2 ''b'' 6, event 3 ''a'' 7, event 4 ''a'' 20])
       ''a'' 0 10 (Some (Num (of_int 1))) = Inr [event 1 ''a'' 5, event 3 ''a'' 7]
   \<and> queryTraffic
       (open_store [event 1 ''a'' 5, event 2 ''b'' 6, event 3 ''a'' 7, event 4 ''a'' 20])
       ''a'' 0 10 None = Inr [event 1 ''a'' 5, event 3 ''a'' 7]"
proof -
  let ?s = "open_store [event 1 ''a'' 5, event 2 ''b'' 6, event 3 ''a'' 7, event 4 ''a'' 20]"
  have wf: "wf_table (storage ?s)"
    by (simp add: wf_table_def open_store_def event_def)
  have op: "db ?s = Some Open"
    by (simp add: open_store_def)
  have n: "(1::int) \<noteq> 0" "- 9223372036854775808 < (1::int)" "(1::int) < 9223372036854775807"
    by simp_all
  have m: "filter (where_site_time ''a'' 0 10) (rows (storage ?s))
             = [event 1 ''a'' 5, event 3 ''a'' 7]"
    by (simp add: open_store_def event_def where_site_time_def)
  have a: "queryTrafficStream ?s ''a'' 0 10 (Some (Num (of_int 1)))
             = Inr [event 1 ''a'' 5, event 3 ''a'' 7]"
    using queryTrafficStream_exact [OF wf op _ n, of "Some (Num (of_int 1))" "''a''" 0 10]
    unfolding m by blast
  have b: "queryTraffic ?s ''a'' 0 10 None = Inr [event 1 ''a'' 5, event 3 ''a'' 7]"
    using queryTrafficStream_exact [OF wf op _ n, of None "''a''" 0 10]
    unfolding m by blast
  from wf op n a b show ?thesis
    by blast
qed

text \<open>
  The claim as stated, for every \<open>batchSize\<close>, fails. At \<open>batchSize = 0\<close>, \<^verbatim>\<open>LIMIT 0\<close>
  returns no row, the first batch is empty and the loop ends at once, although an event
  matches (and is returned under the default batch size). At a \<open>batchSize\<close> that is no
  64-bit integer, here \<open>10^19\<close>, one half, and \<^verbatim>\<open>NaN\<close>, the first batch throws and the
  stream returns nothing.
\<close>

theorem queryTrafficStream_batchSize_0_counterexample:
  "queryTrafficStream (open_store [event 1 ''a'' 5]) ''a'' 0 10 (Some (Num 0)) = Inr []
   \<and> queryTraffic (open_store [event 1 ''a'' 5]) ''a'' 0 10 (Some (Num 0)) = Inr []
   \<and> filter (where_site_time ''a'' 0 10) (rows (storage (open_store [event 1 ''a'' 5])))
       = [event 1 ''a'' 5]
   \<and> queryTrafficStream (open_store [event 1 ''a'' 5]) ''a'' 0 10 None = Inr [event 1 ''a'' 5]
   \<and> queryTrafficStream (open_store [event 1 ''a'' 5]) ''a'' 0 10
        (Some (Num 10000000000000000000)) = Inl SqliteMismatchError
   \<and> queryTrafficStream (open_store [event 1 ''a'' 5]) ''a'' 0 10 (Some (Num (1 / 2)))
       = Inl SqliteMismatchError
   \<and> queryTrafficStream (open_store [event 1 ''a'' 5]) ''a'' 0 10 (Some NaN)
       = Inl SqliteMismatchError"
proof -
  let ?s = "open_store [event 1 ''a'' 5]"
  have wf: "wf_table (storage ?s)"
    by (simp add: wf_table_def open_store_def event_def)
  have op: "db ?s = Some Open"
    by (simp add: open_store_def)
  have m: "filter (where_site_time ''a'' 0 10) (rows (storage ?s)) = [event 1 ''a'' 5]"
    by (simp add: open_store_def event_def where_site_time_def)
  have z: "queryTrafficStream ?s ''a'' 0 10 (Some (Num 0)) = Inr []"
    using op by (simp add: queryTrafficStream_def stream_loop_zero_batch)
  have d: "queryTrafficStream ?s ''a'' 0 10 None = Inr [event 1 ''a'' 5]"
    using op m stream_loop_sorted [of "rows (storage ?s)" 1000 "''a''" 0 10 0] wf
    by (simp add: queryTrafficStream_def wf_table_def open_store_def event_def
        where_site_time_def)
  have big: "queryTrafficStream ?s ''a'' 0 10 (Some (Num 10000000000000000000))
               = Inl SqliteMismatchError"
    using op by (simp add: queryTrafficStream_def stream_loop_mismatch sql_limit_def)
  have "sql_limit (Num (1 / 2)) ([] :: TrafficDBRecord list) = Inl SqliteMismatchError"
    by code_simp
  then have half: "queryTrafficStream ?s ''a'' 0 10 (Some (Num (1 / 2)))
                     = Inl SqliteMismatchError"
    using op by (simp add: queryTrafficStream_def stream_loop_mismatch)
  have nan: "queryTrafficStream ?s ''a'' 0 10 (Some NaN) = Inl SqliteMismatchError"
    using op by (simp add: queryTrafficStream_def stream_loop_mismatch sql_limit_def)
  from z d m big half nan show ?thesis
    by (simp add: queryTraffic_def)
qed

section \<open>The store only ever appends\<close>

lemma exec_storage_cases:
  "storage (snd (exec c s)) = storage s \<or>
   (\<exists>r u. storage (snd (exec c s)) = insert_traffic r u (storage s))"
  by (cases c)
     (auto simp: recordTraffic_def close_def after_stream_def
        split: option.splits Database.splits)

lemma sqlite_sequence_insert_traffic:
  "wf_table t \<Longrightarrow> sqlite_sequence (insert_traffic r u t) = sqlite_sequence t + 1"
  by (simp add: insert_traffic_def next_id_wf)

lemma extends_refl: "wf_table t \<Longrightarrow> extends t t"
  by (simp add: extends_def)

lemma extends_insert_traffic:
  assumes "extends t0 t"
  shows "extends t0 (insert_traffic r u t)"
proof -
  have wf: "wf_table t" and pre: "prefix (rows t0) (rows t)"
    and le: "sqlite_sequence t0 \<le> sqlite_sequence t"
    and new: "list_all (\<lambda>r. sqlite_sequence t0 < id_num r) (drop (length (rows t0)) (rows t))"
    using assms by (simp_all add: extends_def)
  have len: "length (rows t0) \<le> length (rows t)"
    using pre by (rule prefix_length_le)
  have n: "next_id t = sqlite_sequence t + 1"
    by (rule next_id_wf [OF wf])
  show ?thesis
    unfolding extends_def
    using wf_insert_traffic [OF wf] pre le new len
    by (simp add: rows_insert_traffic sqlite_sequence_insert_traffic [OF wf] n)
qed

lemma extends_exec:
  "extends t0 (storage s) \<Longrightarrow> extends t0 (storage (snd (exec c s)))"
  using exec_storage_cases [of c s] by (auto intro: extends_insert_traffic)

lemma extends_run:
  "extends t0 (storage s) \<Longrightarrow> extends t0 (storage (run cs s))"
  unfolding run_def
  by (induction cs arbitrary: s) (simp_all add: extends_exec)

lemma recordTraffic_open:
  assumes "db s = Some Open"
  shows "recordTraffic s now u r =
           Inr (s\<lparr>storage := insert_traffic
                   (r\<lparr>timestamp := Some (case timestamp r of None \<Rightarrow> now | Some t \<Rightarrow> t)\<rparr>)
                   u (storage s)\<rparr>)"
  using assms by (simp add: recordTraffic_def)

text \<open>
  Claim C2. Open a store whose file holds a well-formed table (an empty one, or one this
  code wrote), and let \<open>s\<close> be the store after any sequence of calls: appends, the
  stream, the queries, \<^verbatim>\<open>close\<close>, in any order. Then the ids of the table are strictly
  increasing in row order, which is insertion order, so none repeats; the rows present at
  \<open>initialize\<close> are still the first rows of the table, unchanged, so no call has updated
  or deleted one; every row added since has an id above the counter at \<open>initialize\<close>, so
  no id is used again; and one more append on an open store adds exactly one row, whose
  id is the counter plus one and exceeds every id of the table.
\<close>

theorem ids_strictly_increasing:
  assumes "wf_table (storage this)" and "s = run calls (initialize this)"
  shows "sorted_wrt (<) (map id_num (rows (storage s)))
         \<and> distinct (map id_num (rows (storage s)))
         \<and> prefix (rows (storage (initialize this))) (rows (storage s))
         \<and> list_all (\<lambda>r. sqlite_sequence (storage (initialize this)) < id_num r)
              (drop (length (rows (storage (initialize this)))) (rows (storage s)))
         \<and> (db s = Some Open \<longrightarrow>
              (\<exists>s' x. recordTraffic s now u r = Inr s'
                     \<and> rows (storage s') = rows (storage s) @ [x]
                     \<and> id_num x = sqlite_sequence (storage s) + 1
                     \<and> list_all (\<lambda>y. id_num y < id_num x) (rows (storage s))))"
proof -
  let ?t0 = "storage (initialize this)"
  have "wf_table ?t0"
    using assms(1) by (simp add: initialize_def wf_empty_table)
  then have ext: "extends ?t0 (storage s)"
    unfolding assms(2) by (intro extends_run extends_refl)
  then have wf: "wf_table (storage s)"
    by (simp add: extends_def)
  then have srt: "sorted_wrt (<) (map id_num (rows (storage s)))"
    by (simp add: wf_table_def)
  then have dist: "distinct (map id_num (rows (storage s)))"
    using strict_sorted_iff by blast
  have app: "\<exists>s' x. recordTraffic s now u r = Inr s'
                   \<and> rows (storage s') = rows (storage s) @ [x]
                   \<and> id_num x = sqlite_sequence (storage s) + 1
                   \<and> list_all (\<lambda>y. id_num y < id_num x) (rows (storage s))"
    if "db s = Some Open"
  proof -
    have "list_all (\<lambda>y. id_num y < sqlite_sequence (storage s) + 1) (rows (storage s))"
      using wf by (auto simp: wf_table_def list_all_iff)
    then show ?thesis
      unfolding recordTraffic_open [OF that]
      by (simp add: rows_insert_traffic next_id_wf [OF wf])
  qed
  from srt dist ext app show ?thesis
    by (simp add: extends_def)
qed

theorem ids_strictly_increasing_witness:
  "wf_table (storage (constructor (Some ''traffic.db'') empty_table))
   \<and> rows (storage (run [RecordTraffic 5000 5 (visit ''a''), GetTrafficStats ''a'' 0 9,
                          RecordTraffic 7000 7 (visit ''b'')]
                      (initialize (constructor (Some ''traffic.db'') empty_table))))
       = [event 1 ''a'' 5000, event 2 ''b'' 7000]
   \<and> sorted_wrt (<) (map id_num
        (rows (storage (run [RecordTraffic 5000 5 (visit ''a''), GetTrafficStats ''a'' 0 9,
                             RecordTraffic 7000 7 (visit ''b'')]
                         (initialize (constructor (Some ''traffic.db'') empty_table))))))
   \<and> db (run [RecordTraffic 5000 5 (visit ''a''), GetTrafficStats ''a'' 0 9,
               RecordTraffic 7000 7 (visit ''b'')]
           (initialize (constructor (Some ''traffic.db'') empty_table))) = Some Open
   \<and> (\<exists>s' x. recordTraffic
                (run [RecordTraffic 5000 5 (visit ''a''), GetTrafficStats ''a'' 0 9,
                      RecordTraffic 7000 7 (visit ''b'')]
                   (initialize (constructor (Some ''traffic.db'') empty_table)))
                9000 9 (visit ''c'') = Inr s'
            \<and> rows (storage s') = [event 1 ''a'' 5000, event 2 ''b'' 7000, x]
            \<and> id_num x = 3)"
proof -
  let ?c = "constructor (Some ''traffic.db'') empty_table"
  let ?calls = "[RecordTraffic 5000 5 (visit ''a''), GetTrafficStats ''a'' 0 9,
                 RecordTraffic 7000 7 (visit ''b'')]"
  have wf: "wf_table (storage ?c)"
    by (simp add: constructor_def wf_empty_table)
  have rws: "rows (storage (run ?calls (initialize ?c)))
               = [event 1 ''a'' 5000, event 2 ''b'' 7000]"
    by (simp add: run_def recordTraffic_def initialize_def constructor_def empty_table_def
        insert_traffic_def next_id_def visit_def event_def TrafficRecord.extend_def
        TrafficDBRecord.fields_def)
  have sq: "sqlite_sequence (storage (run ?calls (initialize ?c))) = 2"
    by (simp add: run_def recordTraffic_def initialize_def constructor_def empty_table_def
        insert_traffic_def next_id_def)
  have op: "db (run ?calls (initialize ?c)) = Some Open"
    by (simp add: run_def recordTraffic_def initialize_def constructor_def)
  note inst = ids_strictly_increasing [OF wf refl, of ?calls 9000 9 "visit ''c''"]
  have srt: "sorted_wrt (<) (map id_num (rows (storage (run ?calls (initialize ?c)))))"
    using inst by blast
  have "\<exists>s' x. recordTraffic (run ?calls (initialize ?c)) 9000 9 (visit ''c'') = Inr s'
              \<and> rows (storage s') = rows (storage (run ?calls (initialize ?c))) @ [x]
              \<and> id_num x = sqlite_sequence (storage (run ?calls (initialize ?c))) + 1"
    using inst op by blast
  then have more: "\<exists>s' x. recordTraffic (run ?calls (initialize ?c)) 9000 9 (visit ''c'') = Inr s'
              \<and> rows (storage s') = [event 1 ''a'' 5000, event 2 ''b'' 7000, x]
              \<and> id_num x = 3"
    unfolding rws sq by simp
  from wf rws srt op more show ?thesis
    by blast
qed

section \<open>Calls before \<open>initialize\<close>\<close>

text \<open>
  Claim C7. \<^verbatim>\<open>this.db\<close> is \<^verbatim>\<open>null\<close> from the constructor until \<^verbatim>\<open>initialize\<close> assigns it.
  In that state every call other than \<^verbatim>\<open>close\<close> (the append, the stream and its eager
  wrapper, and every query) throws the error \<^verbatim>\<open>Database not initialized\<close>, and the store
  after the call is the store before it.
\<close>

theorem not_initialized_error:
  assumes "db this = None" and "c \<noteq> Close"
  shows "exec c this = (Inl NotInitializedError, this)
         \<and> recordTraffic this now u r = Inl NotInitializedError
         \<and> queryTrafficStream this site startTime endTime batchSize = Inl NotInitializedError
         \<and> queryTraffic this site startTime endTime batchSize = Inl NotInitializedError
         \<and> getDailyViews this site startTime endTime = Inl NotInitializedError
         \<and> getDailyViewsByPath this site startTime endTime p = Inl NotInitializedError
         \<and> getTrafficStats this site startTime endTime = Inl NotInitializedError
         \<and> getReferrerBreakdown this site startTime endTime = Inl NotInitializedError
         \<and> getPathsBreakdown this site startTime endTime = Inl NotInitializedError
         \<and> getCountryBreakdown this site startTime endTime = Inl NotInitializedError
         \<and> getLatestTraffic this latestSite = Inl NotInitializedError"
proof -
  have each:
    "recordTraffic this now' u' r' = Inl NotInitializedError"
    "queryTrafficStream this site' s' e' b' = Inl NotInitializedError"
    "queryTraffic this site' s' e' b' = Inl NotInitializedError"
    "getDailyViews this site' s' e' = Inl NotInitializedError"
    "getDailyViewsByPath this site' s' e' p' = Inl NotInitializedError"
    "getTrafficStats this site' s' e' = Inl NotInitializedError"
    "getReferrerBreakdown this site' s' e' = Inl NotInitializedError"
    "getPathsBreakdown this site' s' e' = Inl NotInitializedError"
    "getCountryBreakdown this site' s' e' = Inl NotInitializedError"
    "getLatestTraffic this l' = Inl NotInitializedError"
    for now' u' r' site' s' e' b' p' l'
    using assms(1)
    by (simp_all add: recordTraffic_def queryTrafficStream_def queryTraffic_def
        getDailyViews_def getDailyViewsByPath_def getTrafficStats_def
        getReferrerBreakdown_def getPathsBreakdown_def getCountryBreakdown_def
        getLatestTraffic_def)
  have "exec c this = (Inl NotInitializedError, this)"
    using assms(2) by (cases c) (simp_all add: each after_stream_def)
  with each show ?thesis by simp
qed

theorem not_initialized_error_witness:
  "db (constructor (Some ''traffic.db'') empty_table) = None
   \<and> GetTrafficStats ''a'' 0 9 \<noteq> Close
   \<and> exec (GetTrafficStats ''a'' 0 9) (constructor (Some ''traffic.db'') empty_table)
       = (Inl NotInitializedError, constructor (Some ''traffic.db'') empty_table)
   \<and> recordTraffic (constructor (Some ''traffic.db'') empty_table) 5000 5 (visit ''a'')
       = Inl NotInitializedError"
proof -
  have n: "db (constructor (Some ''traffic.db'') empty_table) = None"
    by (simp add: constructor_def)
  have c: "GetTrafficStats ''a'' 0 9 \<noteq> Close"
    by simp
  from not_initialized_error [OF n c, of 5000 5 "visit ''a''"] n c show ?thesis
    by simp
qed

section \<open>Closing twice\<close>

lemma close_never_opened: "db this = None \<Longrightarrow> close this = (Inr (), this)"
  by (simp add: close_def)

lemma close_open:
  "db this = Some Open \<Longrightarrow> unfinalized this = 0
     \<Longrightarrow> close this = (Inr (), this\<lparr>db := Some Closed\<rparr>)"
  by (simp add: close_def)

lemma close_after_failed_batch:
  "db this = Some Open \<Longrightarrow> 0 < unfinalized this \<Longrightarrow> close this = (Inl SqliteBusyError, this)"
  by (simp add: close_def)

text \<open>
  Claim C8 at \<^verbatim>\<open>new TrafficDB("traffic.db")\<close>. On the store that was never opened,
  \<^verbatim>\<open>close\<close> returns and changes nothing. After \<^verbatim>\<open>initialize\<close> the first \<^verbatim>\<open>close\<close> returns,
  but it leaves the closed handle in \<^verbatim>\<open>this.db\<close>, so the second \<^verbatim>\<open>close\<close> passes the
  test \<^verbatim>\<open>if (this.db)\<close>, closes the handle again and is rejected by the driver; so is every
  later one, and a query then fails with the driver's error, not with
  \<^verbatim>\<open>Database not initialized\<close>.
\<close>

theorem close_twice_rejected:
  "close (constructor (Some ''traffic.db'') empty_table)
     = (Inr (), constructor (Some ''traffic.db'') empty_table)
   \<and> fst (close (initialize (constructor (Some ''traffic.db'') empty_table))) = Inr ()
   \<and> fst (close (snd (close (initialize (constructor (Some ''traffic.db'') empty_table)))))
       = Inl DatabaseClosedError
   \<and> fst (close (snd (close (snd (close (initialize (constructor (Some ''traffic.db'') empty_table)))))))
       = Inl DatabaseClosedError
   \<and> getTrafficStats (snd (close (initialize (constructor (Some ''traffic.db'') empty_table)))) ''a'' 0 9
       = Inl DatabaseClosedError"
  by (simp add: close_def initialize_def constructor_def getTrafficStats_def)

section \<open>Summary statistics\<close>

lemma count_distinct_non_null:
  "length (remdups (filter (\<lambda>x. x \<noteq> None) (map f m))) = card {v. \<exists>r\<in>set m. f r = Some v}"
proof -
  have "set (filter (\<lambda>x. x \<noteq> None) (map f m)) = Some ` {v. \<exists>r\<in>set m. f r = Some v}"
    by (auto simp: image_iff) force
  then have "card (set (filter (\<lambda>x. x \<noteq> None) (map f m))) = card {v. \<exists>r\<in>set m. f r = Some v}"
    by (simp add: card_image)
  then show ?thesis
    by (simp add: length_remdups_card_conv)
qed

lemma length_filter_split:
  assumes "list_all (\<lambda>r. P r \<or> Q r) m" and "\<And>r. \<not> (P r \<and> Q r)"
  shows "length m = length (filter P m) + length (filter Q m)"
  using assms(1)
proof (induction m)
  case Nil
  then show ?case by simp
next
  case (Cons a m)
  then show ?case using assms(2) [of a] by auto
qed

text \<open>
  Claim C5. On an open store \<open>getTrafficStats\<close> returns a report in which
  \<open>total_requests\<close> is the number of matching events, \<open>unique_visitors\<close> the number of
  distinct addresses among the matching events that have one, \<open>total_website_requests\<close>
  the number of matching events whose \<open>requestType\<close> is \<^verbatim>\<open>"static"\<close> or absent, and
  \<open>total_server_requests\<close> the number whose \<open>requestType\<close> is \<^verbatim>\<open>"api"\<close>; when every
  matching event has one of these three request types, the total is the sum of the two.
\<close>

theorem getTrafficStats_counts:
  assumes "db this = Some Open"
  shows "\<exists>st. getTrafficStats this site startTime endTime = Inr st
           \<and> total_requests st = length (matching this site startTime endTime)
           \<and> unique_visitors st =
               card {ip. \<exists>r\<in>set (matching this site startTime endTime). ipAddress r = Some ip}
           \<and> total_website_requests st =
               length (filter (\<lambda>r. requestType r = Some ''static'' \<or> requestType r = None)
                         (matching this site startTime endTime))
           \<and> total_server_requests st =
               length (filter (\<lambda>r. requestType r = Some ''api'')
                         (matching this site startTime endTime))
           \<and> (list_all (\<lambda>r. requestType r = None \<or> requestType r = Some ''static''
                              \<or> requestType r = Some ''api'')
                 (matching this site startTime endTime)
               \<longrightarrow> total_requests st = total_website_requests st + total_server_requests st)"
proof -
  let ?m = "matching this site startTime endTime"
  have split: "length ?m =
      length (filter (\<lambda>r. requestType r = Some ''static'' \<or> requestType r = None) ?m)
      + length (filter (\<lambda>r. requestType r = Some ''api'') ?m)"
    if "list_all (\<lambda>r. requestType r = None \<or> requestType r = Some ''static''
                       \<or> requestType r = Some ''api'') ?m"
  proof (rule length_filter_split)
    show "list_all (\<lambda>r. (requestType r = Some ''static'' \<or> requestType r = None)
                         \<or> requestType r = Some ''api'') ?m"
      using that by (auto simp: list_all_iff)
  qed auto
  show ?thesis
    using assms split
    by (simp add: getTrafficStats_def Let_def matching_def [symmetric] count_distinct_non_null
        del: not_None_eq)
qed

theorem getTrafficStats_counts_witness:
  "db (open_store [event 1 ''a'' 5, (event 2 ''a'' 6)\<lparr>requestType := Some ''api''\<rparr>]) = Some Open
   \<and> list_all (\<lambda>r. requestType r = None \<or> requestType r = Some ''static''
                     \<or> requestType r = Some ''api'')
        (matching (open_store [event 1 ''a'' 5, (event 2 ''a'' 6)\<lparr>requestType := Some ''api''\<rparr>])
           ''a'' 0 10)
   \<and> (\<exists>st. getTrafficStats
               (open_store [event 1 ''a'' 5, (event 2 ''a'' 6)\<lparr>requestType := Some ''api''\<rparr>])
               ''a'' 0 10 = Inr st
           \<and> total_requests st = 2 \<and> unique_visitors st = 0
           \<and> total_website_requests st = 1 \<and> total_server_requests st = 1)"
proof -
  let ?s = "open_store [event 1 ''a'' 5, (event 2 ''a'' 6)\<lparr>requestType := Some ''api''\<rparr>]"
  have op: "db ?s = Some Open"
    by (simp add: open_store_def)
  have m: "matching ?s ''a'' 0 10 = [event 1 ''a'' 5, (event 2 ''a'' 6)\<lparr>requestType := Some ''api''\<rparr>]"
    by (simp add: matching_def open_store_def event_def where_site_time_def)
  have rt: "requestType (event 1 ''a'' 5) = None"
    "requestType ((event 2 ''a'' 6)\<lparr>requestType := Some ''api''\<rparr>) = Some ''api''"
    "ipAddress (event 1 ''a'' 5) = None"
    "ipAddress ((event 2 ''a'' 6)\<lparr>requestType := Some ''api''\<rparr>) = None"
    by (simp_all add: event_def)
  from getTrafficStats_counts [OF op, of "''a''" 0 10]
  obtain st where "getTrafficStats ?s ''a'' 0 10 = Inr st"
    "total_requests st = 2" "unique_visitors st = 0"
    "total_website_requests st = 1" "total_server_requests st = 1"
    unfolding m by (auto simp: rt)
  with op show ?thesis
    unfolding m by (simp add: rt)
qed

section \<open>Daily views: one row per day\<close>

lemma dates_None_right: "dates d None = [d]"
  by (subst dates.simps) (simp add: sql_less_def split: option.splits)

lemma dates_None_left: "dates None e = [None]"
  by (subst dates.simps) (simp add: sql_less_def)

lemma dates_not_less: "b \<le> a \<Longrightarrow> dates (Some a) (Some b) = [Some a]"
  by (subst dates.simps) (simp add: sql_less_def)

lemma dates_upto:
  assumes "a \<le> b" and "b \<le> 2932896"
  shows "dates (Some a) (Some b) = map Some [a..b]"
  using assms
proof (induction "nat (b - a)" arbitrary: a)
  case 0
  then have "a = b" by simp
  then show ?case by (simp add: dates_not_less)
next
  case (Suc n)
  then have lt: "a < b" and n: "n = nat (b - (a + 1))" by linarith+
  have "dates (Some a) (Some b) = Some a # dates (Some (a + 1)) (Some b)"
    using lt Suc.prems(2)
    by (subst dates.simps) (simp add: sql_less_def date_plus_1_day_def)
  also have "dates (Some (a + 1)) (Some b) = map Some [a + 1..b]"
    using Suc.hyps(1) [OF n] lt Suc.prems(2) by simp
  finally show ?case
    using lt by (simp add: upto_rec1 [of a b])
qed

lemma date_unixepoch_le: "date_unixepoch s = Some d \<Longrightarrow> d \<le> 2932896"
  by (auto simp: date_unixepoch_def split: if_splits)

lemma dates_unixepoch_cases:
  "dates (date_unixepoch s) (date_unixepoch e) =
     (case (date_unixepoch s, date_unixepoch e) of
        (Some a, Some b) \<Rightarrow> if a \<le> b then map Some [a..b] else [Some a]
      | (d, _) \<Rightarrow> [d])"
  by (auto simp: dates_None_left dates_None_right dates_not_less dates_upto
      dest: date_unixepoch_le split: option.splits)

lemma dates_unixepoch_sorted:
  "sorted (dates (date_unixepoch s) (date_unixepoch e))
   \<and> distinct (dates (date_unixepoch s) (date_unixepoch e))"
  unfolding dates_unixepoch_cases
  by (auto simp: sorted_map distinct_map inj_on_def split: option.splits
      intro: sorted_wrt_mono_rel [OF _ sorted_upto])

lemma left_join_Cons:
  "left_join (l # ls) rs on =
     (if filter (on l) rs = [] then [(l, None)]
      else map (\<lambda>r. (l, Some r)) (filter (on l) rs)) @ left_join ls rs on"
  by (simp add: left_join_def)

lemma fst_left_join_row:
  "fst ` set (if xs = [] then [(l, None)] else map (\<lambda>r. (l, Some r)) xs) = {l}"
  by (cases xs) (auto simp: image_iff)

lemma set_fst_left_join: "fst ` set (left_join ls rs on) = set ls"
proof (induction ls)
  case Nil
  then show ?case by (simp add: left_join_def)
next
  case (Cons l ls)
  show ?case
    unfolding left_join_Cons set_append image_Un fst_left_join_row Cons.IH by simp
qed

lemma groups_left_join:
  assumes "sorted ls" and "distinct ls"
  shows "sort (remdups (map fst (left_join ls rs on))) = ls"
proof (rule sorted_distinct_set_unique)
  show "set (sort (remdups (map fst (left_join ls rs on)))) = set ls"
    by (simp add: set_fst_left_join)
qed (use assms in simp_all)

lemma count_left_join_row:
  "length (filter (\<lambda>(l', r). l' = l \<and> r \<noteq> None)
             (if xs = [] then [(a, None)] else map (\<lambda>r. (a, Some r)) xs))
     = (if a = l then length xs else 0)"
  by (simp add: filter_map comp_def del: not_None_eq)

lemma count_left_join:
  assumes "distinct ls" and "l \<in> set ls"
  shows "length (filter (\<lambda>(l', r). l' = l \<and> r \<noteq> None) (left_join ls rs on))
           = length (filter (on l) rs)"
  using assms
proof (induction ls)
  case Nil
  then show ?case by simp
next
  case (Cons a ls)
  show ?case
  proof (cases "a = l")
    case True
    then have "l \<notin> fst ` set (left_join ls rs on)"
      using Cons.prems(1) by (simp add: set_fst_left_join)
    then have "filter (\<lambda>(l', r). l' = l \<and> r \<noteq> None) (left_join ls rs on) = []"
      by (auto simp: filter_empty_conv image_iff)
    with True show ?thesis
      unfolding left_join_Cons filter_append length_append count_left_join_row by simp
  next
    case False
    with Cons show ?thesis
      unfolding left_join_Cons filter_append length_append count_left_join_row by simp
  qed
qed

lemma daily_views_query_rows:
  "daily_views_query tbl s e on_traffic =
     map (\<lambda>d. (map_option date_text d,
                length (filter (\<lambda>r. on_traffic r \<and> sql_eq (date_unixepoch (created_at r)) d) tbl)))
       (dates (date_unixepoch s) (date_unixepoch e))"
proof -
  let ?ds = "dates (date_unixepoch s) (date_unixepoch e)"
  let ?on = "\<lambda>d r. on_traffic r \<and> sql_eq (date_unixepoch (created_at r)) d"
  have srt: "sorted ?ds" and dist: "distinct ?ds"
    using dates_unixepoch_sorted [of s e] by simp_all
  have "daily_views_query tbl s e on_traffic =
          map (\<lambda>d. (map_option date_text d,
                     length (filter (\<lambda>(d', r). d' = d \<and> r \<noteq> None) (left_join ?ds tbl ?on))))
            ?ds"
    unfolding daily_views_query_def Let_def groups_left_join [OF srt dist] ..
  also have "\<dots> = map (\<lambda>d. (map_option date_text d, length (filter (?on d) tbl))) ?ds"
    by (rule map_cong [OF refl]) (simp only: count_left_join [OF dist])
  finally show ?thesis .
qed








lemma daily_views_query_filter:
  "daily_views_query tbl s e (\<lambda>r. P r \<and> Q r) = daily_views_query (filter Q tbl) s e P"
  unfolding daily_views_query_rows
  by (rule map_cong [OF refl]) (simp add: conj_commute conj_left_commute)

text \<open>
  Claim C10. With the path absent or the empty string, \<open>getDailyViewsByPath\<close> returns
  what \<open>getDailyViews\<close> returns for the same arguments, in every state of the store;
  with a path that is not empty it returns what \<open>getDailyViews\<close> returns on the store
  restricted to the events that have exactly this path.
\<close>

theorem getDailyViewsByPath_no_path:
  "getDailyViewsByPath this site startTime endTime None
     = getDailyViews this site startTime endTime
   \<and> getDailyViewsByPath this site startTime endTime (Some [])
     = getDailyViews this site startTime endTime
   \<and> (v \<noteq> [] \<longrightarrow>
        getDailyViewsByPath this site startTime endTime (Some v)
          = getDailyViews (only_path (Some v) this) site startTime endTime)"
  by (simp add: getDailyViewsByPath_def getDailyViews_def truthy_def only_path_def
      daily_views_query_filter split: option.splits Database.splits)


theorem getDailyViewsByPath_no_path_witness:
  "''/x'' \<noteq> []
   \<and> getDailyViews
        (open_store [(event 1 ''a'' 1704067200000)\<lparr>path := Some ''/x''\<rparr>,
                     (event 2 ''a'' 1704067200000)\<lparr>path := Some ''/y''\<rparr>,
                     event 3 ''a'' 1704067200000])
        ''a'' 1704067200000 1704067200000 = Inr [(Some ''2024-01-01'', 3)]
   \<and> getDailyViewsByPath
        (open_store [(event 1 ''a'' 1704067200000)\<lparr>path := Some ''/x''\<rparr>,
                     (event 2 ''a'' 1704067200000)\<lparr>path := Some ''/y''\<rparr>,
                     event 3 ''a'' 1704067200000])
        ''a'' 1704067200000 1704067200000 None = Inr [(Some ''2024-01-01'', 3)]
   \<and> getDailyViewsByPath
        (open_store [(event 1 ''a'' 1704067200000)\<lparr>path := Some ''/x''\<rparr>,
                     (event 2 ''a'' 1704067200000)\<lparr>path := Some ''/y''\<rparr>,
                     event 3 ''a'' 1704067200000])
        ''a'' 1704067200000 1704067200000 (Some []) = Inr [(Some ''2024-01-01'', 3)]
   \<and> getDailyViewsByPath
        (open_store [(event 1 ''a'' 1704067200000)\<lparr>path := Some ''/x''\<rparr>,
                     (event 2 ''a'' 1704067200000)\<lparr>path := Some ''/y''\<rparr>,
                     event 3 ''a'' 1704067200000])
        ''a'' 1704067200000 1704067200000 (Some ''/x'') = Inr [(Some ''2024-01-01'', 1)]"
proof -
  let ?s = "open_store [(event 1 ''a'' 1704067200000)\<lparr>path := Some ''/x''\<rparr>,
                        (event 2 ''a'' 1704067200000)\<lparr>path := Some ''/y''\<rparr>,
                        event 3 ''a'' 1704067200000]"
  have ne: "''/x'' \<noteq> []"
    by simp
  have v: "getDailyViews ?s ''a'' 1704067200000 1704067200000 = Inr [(Some ''2024-01-01'', 3)]"
    by code_simp
  have w: "getDailyViews (only_path (Some ''/x'') ?s) ''a'' 1704067200000 1704067200000
             = Inr [(Some ''2024-01-01'', 1)]"
    by code_simp
  note inst = getDailyViewsByPath_no_path [of ?s "''a''" 1704067200000 1704067200000 "''/x''"]
  have a: "getDailyViewsByPath ?s ''a'' 1704067200000 1704067200000 None
             = Inr [(Some ''2024-01-01'', 3)]"
    and b: "getDailyViewsByPath ?s ''a'' 1704067200000 1704067200000 (Some [])
             = Inr [(Some ''2024-01-01'', 3)]"
    and c: "getDailyViewsByPath ?s ''a'' 1704067200000 1704067200000 (Some ''/x'')
             = Inr [(Some ''2024-01-01'', 1)]"
    using inst ne v w by simp_all
  from ne v a b c show ?thesis
    by blast
qed

section \<open>Breakdowns\<close>

lemma insort_key_map:
  "insort_key f (g x) (map g ys) = map g (insort_key (\<lambda>a. f (g a)) x ys)"
  by (induction ys) simp_all

lemma sort_key_map: "sort_key f (map g xs) = map g (sort_key (\<lambda>a. f (g a)) xs)"
  by (induction xs) (simp_all add: insort_key_map)

lemma breakdown_query_rows:
  "breakdown_query col dflt m =
     map (\<lambda>(k, c). (k, c, percentage c (sql_sum (map snd (label_counts col dflt m)))))
       (order_by_count_desc (label_counts col dflt m))"
proof -
  let ?t = "sql_sum (map snd (label_counts col dflt m))"
  have cross: "concat (map (\<lambda>(k, c). map (\<lambda>tot. (k, c, tot)) [?t]) (label_counts col dflt m))
                 = map (\<lambda>(k, c). (k, c, ?t)) (label_counts col dflt m)"
    by (induction "label_counts col dflt m") (auto simp: case_prod_beta)
  have key: "(\<lambda>a. (\<lambda>(k, c, tot). - int c) ((\<lambda>(k, c). (k, c, ?t)) a))
               = (\<lambda>(k :: string, c). - int c)"
    by (auto simp: fun_eq_iff)
  show ?thesis
    unfolding breakdown_query_def Let_def cross sort_key_map key order_by_count_desc_def
    by (simp add: case_prod_beta comp_def)
qed

lemma sum_list_indicator:
  "distinct ks \<Longrightarrow> sum_list (map (\<lambda>k. if x = k then 1 else 0) ks) = (if x \<in> set ks then 1 else (0::nat))"
  by (induction ks) auto

lemma sum_group_counts:
  assumes "distinct ks" and "set (map col xs) \<subseteq> set ks"
  shows "sum_list (map (\<lambda>k. length (filter (\<lambda>r. col r = k) xs)) ks) = length xs"
  using assms(2)
proof (induction xs)
  case Nil
  then show ?case by simp
next
  case (Cons x xs)
  have "sum_list (map (\<lambda>k. length (filter (\<lambda>r. col r = k) (x # xs))) ks)
          = sum_list (map (\<lambda>k. (if col x = k then 1 else 0) + length (filter (\<lambda>r. col r = k) xs)) ks)"
    by (rule arg_cong [where f = sum_list], rule map_cong [OF refl]) simp
  also have "\<dots> = sum_list (map (\<lambda>k. if col x = k then 1 else 0) ks)
                    + sum_list (map (\<lambda>k. length (filter (\<lambda>r. col r = k) xs)) ks)"
    by (simp add: sum_list_addf)
  also have "\<dots> = 1 + length xs"
    using Cons assms(1) by (simp add: sum_list_indicator)
  finally show ?case by simp
qed

lemma sum_group_by_count: "sum_list (map snd (group_by_count col m)) = length m"
  unfolding group_by_count_def
  using sum_group_counts [of "remdups (map col m)" col m]
  by (simp add: comp_def)

lemma snd_label_counts: "map snd (label_counts col dflt m) = map snd (group_by_count col m)"
  by (simp add: label_counts_def case_prod_beta)

lemma label_counts_empty: "(label_counts col dflt m = []) = (m = [])"
  by (simp add: label_counts_def group_by_count_def)

lemma total_count_value:
  "m \<noteq> [] \<Longrightarrow> sql_sum (map snd (label_counts col dflt m)) = Some (length m)"
proof -
  assume "m \<noteq> []"
  then have "map snd (label_counts col dflt m) \<noteq> []"
    using label_counts_empty [of col dflt m] by simp
  moreover have "sum_list (map snd (label_counts col dflt m)) = length m"
    unfolding snd_label_counts by (rule sum_group_by_count)
  ultimately show ?thesis
    unfolding sql_sum_def by simp
qed

lemma sum_list_insort_key:
  fixes h :: "'a \<Rightarrow> 'b::comm_monoid_add"
  shows "sum_list (map h (insort_key f x xs)) = h x + sum_list (map h xs)"
  by (induction xs) (simp_all add: add.left_commute)

lemma sum_list_sort_key:
  fixes h :: "'a \<Rightarrow> 'b::comm_monoid_add"
  shows "sum_list (map h (sort_key f xs)) = sum_list (map h xs)"
  by (induction xs) (simp_all add: sum_list_insort_key)

lemma round2_error: "\<bar>round2 x - x\<bar> \<le> 1 / 200"
proof -
  have fl: "\<bar>of_int \<lfloor>y + 1 / 2\<rfloor> - y\<bar> \<le> 1 / 2" for y :: rat
    by linarith
  show ?thesis
  proof (cases "0 \<le> x")
    case True
    have "\<bar>of_int \<lfloor>x * 100 + 1 / 2\<rfloor> / 100 - x\<bar> = \<bar>of_int \<lfloor>x * 100 + 1 / 2\<rfloor> - x * 100\<bar> / 100"
      by (simp add: field_simps abs_divide)
    also have "\<dots> \<le> (1 / 2) / 100"
      using fl [of "x * 100"] by (simp add: divide_right_mono)
    finally show ?thesis using True by (simp add: round2_def)
  next
    case False
    have "\<bar>- (of_int \<lfloor>- x * 100 + 1 / 2\<rfloor> / 100) - x\<bar>
            = \<bar>of_int \<lfloor>- x * 100 + 1 / 2\<rfloor> - (- x * 100)\<bar> / 100"
      by (simp add: field_simps abs_divide abs_minus_commute)
    also have "\<dots> \<le> (1 / 2) / 100"
      using fl [of "- x * 100"] by (simp add: divide_right_mono)
    finally show ?thesis using False by (simp add: round2_def)
  qed
qed

lemma sum_list_error:
  fixes f g :: "'a \<Rightarrow> rat"
  assumes "\<And>x. x \<in> set xs \<Longrightarrow> \<bar>f x - g x\<bar> \<le> eps"
  shows "\<bar>sum_list (map f xs) - sum_list (map g xs)\<bar> \<le> of_nat (length xs) * eps"
  using assms
proof (induction xs)
  case Nil
  then show ?case by simp
next
  case (Cons a xs)
  have "\<bar>f a - g a\<bar> \<le> eps" and "\<bar>sum_list (map f xs) - sum_list (map g xs)\<bar> \<le> of_nat (length xs) * eps"
    using Cons by simp_all
  then show ?case by (simp add: algebra_simps)
qed

lemma sum_list_share:
  "sum_list (map (\<lambda>x. of_nat (f x) / n * 100) xs) = (of_nat (sum_list (map f xs)) / n * 100 :: rat)"
  by (induction xs) (simp_all add: add_divide_distrib distrib_right)

lemma order_by_count_desc_sorted:
  "sorted_wrt (\<lambda>x y. snd y \<le> snd x) (order_by_count_desc xs)"
proof -
  have "sorted (map (\<lambda>(k, c). - int c) (order_by_count_desc xs))"
    unfolding order_by_count_desc_def by (rule sorted_sort_key)
  then show ?thesis
    by (simp add: sorted_map case_prod_beta)
qed

subsection \<open>The error of the double arithmetic\<close>

lemma nearest_even_error: "\<bar>of_int (nearest_even y) - y\<bar> \<le> 1 / 2"
proof -
  have "of_int \<lfloor>y\<rfloor> \<le> y" and "y < of_int \<lfloor>y\<rfloor> + 1"
    by linarith+
  then show ?thesis
    unfolding nearest_even_def by (simp add: abs_le_iff)
qed

lemma ilog2_le:
  assumes "0 < a"
  shows "2 powi (ilog2 a) \<le> a"
proof (cases "1 \<le> a")
  case True
  then have pos: "0 < \<lfloor>a\<rfloor>" by linarith
  from bitlen_bounds [OF pos] have "2 ^ nat (bitlen \<lfloor>a\<rfloor> - 1) \<le> \<lfloor>a\<rfloor>" by simp
  then have "(2::rat) ^ nat (bitlen \<lfloor>a\<rfloor> - 1) \<le> of_int \<lfloor>a\<rfloor>"
    by (metis of_int_le_iff of_int_numeral of_int_power)
  also have "\<dots> \<le> a" by simp
  finally have le: "(2::rat) ^ nat (bitlen \<lfloor>a\<rfloor> - 1) \<le> a" .
  have "1 \<le> bitlen \<lfloor>a\<rfloor>"
    using pos bitlen_eq_zero_iff [of "\<lfloor>a\<rfloor>"] bitlen_nonneg [of "\<lfloor>a\<rfloor>"] by linarith
  then have "2 powi (bitlen \<lfloor>a\<rfloor> - 1) = (2::rat) ^ nat (bitlen \<lfloor>a\<rfloor> - 1)"
    by (simp add: power_int_def)
  with le True show ?thesis by (simp add: ilog2_def)
next
  case False
  then have a1: "a < 1" by simp
  let ?n = "\<lceil>1 / a\<rceil> - 1"
  have "1 < 1 / a" using assms a1 by (simp add: field_simps)
  then have pos: "0 < ?n" by linarith
  from bitlen_bounds [OF pos] have "\<lceil>1 / a\<rceil> - 1 < 2 ^ nat (bitlen ?n)" by simp
  then have "\<lceil>1 / a\<rceil> \<le> 2 ^ nat (bitlen ?n)" by linarith
  then have "of_int \<lceil>1 / a\<rceil> \<le> (2::rat) ^ nat (bitlen ?n)"
    by (metis of_int_le_iff of_int_numeral of_int_power)
  moreover have "1 / a \<le> of_int \<lceil>1 / a\<rceil>" by simp
  ultimately have "1 / a \<le> (2::rat) ^ nat (bitlen ?n)" by linarith
  then have "1 / (2::rat) ^ nat (bitlen ?n) \<le> a"
    using assms by (simp add: field_simps)
  moreover have "2 powi (- bitlen ?n) = 1 / (2::rat) ^ nat (bitlen ?n)"
    using bitlen_nonneg [of ?n] by (simp add: power_int_def field_simps)
  ultimately show ?thesis using False by (simp add: ilog2_def)
qed

lemma binary64_error: "\<bar>binary64 x - x\<bar> \<le> \<bar>x\<bar> / 2 ^ 53"
proof (cases "x = 0")
  case True
  then show ?thesis by (simp add: binary64_def)
next
  case False
  define a where "a = \<bar>x\<bar>"
  define p :: rat where "p = 2 powi (ilog2 a - 52)"
  define m :: rat where "m = of_int (nearest_even (a / p))"
  have a: "0 < a" using False by (simp add: a_def)
  have p: "0 < p" by (simp add: p_def)
  have "\<bar>m - a / p\<bar> \<le> 1 / 2"
    unfolding m_def by (rule nearest_even_error)
  then have "\<bar>m - a / p\<bar> * p \<le> 1 / 2 * p"
    using p by (intro mult_right_mono) simp_all
  moreover have "\<bar>m - a / p\<bar> * p = \<bar>(m - a / p) * p\<bar>"
    using p by (simp add: abs_mult)
  moreover have "(m - a / p) * p = m * p - a"
    using p by (simp add: left_diff_distrib)
  ultimately have err: "\<bar>m * p - a\<bar> \<le> p / 2" by simp
  have "p = 2 powi (ilog2 a) / 2 ^ 52"
    unfolding p_def by (simp add: power_int_diff)
  also have "\<dots> \<le> a / 2 ^ 52"
    using ilog2_le [OF a] by (simp add: divide_right_mono)
  finally have "p / 2 \<le> a / 2 ^ 53" by simp
  with err have main: "\<bar>m * p - a\<bar> \<le> a / 2 ^ 53" by linarith
  have b: "binary64 x = sgn x * m * p"
    using False by (simp add: binary64_def m_def p_def a_def)
  have "x = sgn x * a"
    unfolding a_def by (simp add: mult_sgn_abs)
  then have "binary64 x - x = sgn x * m * p - sgn x * a"
    using b by simp
  also have "\<dots> = sgn x * (m * p - a)"
    by (simp add: right_diff_distrib mult.assoc)
  finally have "\<bar>binary64 x - x\<bar> = \<bar>sgn x\<bar> * \<bar>m * p - a\<bar>"
    by (simp add: abs_mult)
  also have "\<bar>sgn x\<bar> = 1"
    using False by (simp add: abs_sgn_eq)
  finally show ?thesis
    using main by (simp add: a_def)
qed

lemma binary64_bounds:
  assumes "0 \<le> x"
  shows "x * (1 - unit_roundoff) \<le> binary64 x" and "binary64 x \<le> x * (1 + unit_roundoff)"
proof -
  have "\<bar>binary64 x - x\<bar> \<le> x * unit_roundoff"
    using binary64_error [of x] assms by (simp add: unit_roundoff_def)
  then show "x * (1 - unit_roundoff) \<le> binary64 x" and "binary64 x \<le> x * (1 + unit_roundoff)"
    by (simp_all add: abs_le_iff algebra_simps)
qed

lemma binary64_nonneg: "0 \<le> x \<Longrightarrow> 0 \<le> binary64 x"
proof -
  assume x: "0 \<le> x"
  have "0 \<le> 1 - unit_roundoff" by (simp add: unit_roundoff_def)
  with x have "0 \<le> x * (1 - unit_roundoff)" by (rule mult_nonneg_nonneg)
  with binary64_bounds(1) [OF x] show ?thesis by linarith
qed

lemma share_error:
  assumes "0 < t" and "c \<le> t"
  shows "\<bar>binary64 (binary64 (binary64 (of_nat c) / binary64 (of_nat t)) * 100)
          - of_nat c / of_nat t * 100\<bar> \<le> 1 / 10 ^ 12"
proof -
  define u :: rat where "u = unit_roundoff"
  define x :: rat where "x = of_nat c / of_nat t"
  define C where "C = binary64 (of_nat c)"
  define T where "T = binary64 (of_nat t)"
  define Q where "Q = binary64 (C / T)"
  define P where "P = binary64 (Q * 100)"
  have u: "0 < u" "u < 1" by (simp_all add: u_def unit_roundoff_def)
  have x: "0 \<le> x" "x \<le> 1"
    using assms by (simp_all add: x_def)
  have t: "(0::rat) < of_nat t" using assms(1) by simp
  have c0: "(0::rat) \<le> of_nat c" and t0: "(0::rat) \<le> of_nat t" by simp_all
  have C: "of_nat c * (1 - u) \<le> C" "C \<le> of_nat c * (1 + u)" "0 \<le> C"
    unfolding C_def u_def
    by (rule binary64_bounds(1) [OF c0], rule binary64_bounds(2) [OF c0],
        rule binary64_nonneg [OF c0])
  have T: "of_nat t * (1 - u) \<le> T" "T \<le> of_nat t * (1 + u)"
    unfolding T_def u_def
    by (rule binary64_bounds(1) [OF t0], rule binary64_bounds(2) [OF t0])
  have tlo: "0 < of_nat t * (1 - u)"
    using t u by (intro mult_pos_pos) simp_all
  have chi: "0 \<le> of_nat c * (1 + u)"
    using u by (intro mult_nonneg_nonneg) simp_all
  have Tpos: "0 < T"
    using T(1) tlo by linarith
  have D_hi: "C / T \<le> x * ((1 + u) / (1 - u))"
  proof -
    have "C / T \<le> (of_nat c * (1 + u)) / (of_nat t * (1 - u))"
      using chi C(2) tlo T(1) by (rule frac_le)
    then show ?thesis by (simp add: x_def)
  qed
  have D_lo: "x * ((1 - u) / (1 + u)) \<le> C / T"
  proof -
    have "(of_nat c * (1 - u)) / (of_nat t * (1 + u)) \<le> C / T"
      using C(3) C(1) Tpos T(2) by (rule frac_le)
    then show ?thesis by (simp add: x_def)
  qed
  have D0: "0 \<le> C / T" using C(3) Tpos by simp
  have Q: "C / T * (1 - u) \<le> Q" "Q \<le> C / T * (1 + u)" "0 \<le> Q"
    unfolding Q_def u_def
    by (rule binary64_bounds(1) [OF D0], rule binary64_bounds(2) [OF D0],
        rule binary64_nonneg [OF D0])
  have Q100: "0 \<le> Q * 100" using Q(3) by simp
  have P: "Q * 100 * (1 - u) \<le> P" "P \<le> Q * 100 * (1 + u)"
    unfolding P_def u_def
    by (rule binary64_bounds(1) [OF Q100], rule binary64_bounds(2) [OF Q100])
  have hi: "P \<le> x * 100 * ((1 + u) ^ 3 / (1 - u))"
  proof -
    have "C / T * (1 + u) \<le> x * ((1 + u) / (1 - u)) * (1 + u)"
      using D_hi u by (intro mult_right_mono) simp_all
    with Q(2) have "Q \<le> x * ((1 + u) / (1 - u)) * (1 + u)"
      by linarith
    then have "Q * 100 \<le> x * ((1 + u) / (1 - u)) * (1 + u) * 100"
      by (rule mult_right_mono) simp
    moreover have "0 \<le> 1 + u" using u by simp
    ultimately have "Q * 100 * (1 + u) \<le> x * ((1 + u) / (1 - u)) * (1 + u) * 100 * (1 + u)"
      by (rule mult_right_mono)
    with P(2) have "P \<le> x * ((1 + u) / (1 - u)) * (1 + u) * 100 * (1 + u)"
      by linarith
    also have "\<dots> = x * 100 * ((1 + u) ^ 3 / (1 - u))"
      by (simp add: power3_eq_cube)
    finally show ?thesis .
  qed
  have lo: "x * 100 * ((1 - u) ^ 3 / (1 + u)) \<le> P"
  proof -
    have "x * ((1 - u) / (1 + u)) * (1 - u) \<le> C / T * (1 - u)"
      using D_lo u by (intro mult_right_mono) simp_all
    with Q(1) have "x * ((1 - u) / (1 + u)) * (1 - u) \<le> Q"
      by linarith
    then have "x * ((1 - u) / (1 + u)) * (1 - u) * 100 \<le> Q * 100"
      by (rule mult_right_mono) simp
    moreover have "0 \<le> 1 - u" using u by simp
    ultimately have "x * ((1 - u) / (1 + u)) * (1 - u) * 100 * (1 - u) \<le> Q * 100 * (1 - u)"
      by (rule mult_right_mono)
    with P(1) have le: "x * ((1 - u) / (1 + u)) * (1 - u) * 100 * (1 - u) \<le> P"
      by linarith
    have "x * 100 * ((1 - u) ^ 3 / (1 + u)) = x * ((1 - u) / (1 + u)) * (1 - u) * 100 * (1 - u)"
      by (simp add: power3_eq_cube)
    also note le
    finally show ?thesis .
  qed
  have k_hi: "100 * ((1 + u) ^ 3 / (1 - u)) \<le> 100 + 1 / 10 ^ 12"
    unfolding u_def unit_roundoff_def by (simp add: power3_eq_cube)
  have k_lo: "100 - 1 / 10 ^ 12 \<le> 100 * ((1 - u) ^ 3 / (1 + u))"
    unfolding u_def unit_roundoff_def by (simp add: power3_eq_cube)
  have k1: "1 \<le> (1 + u) ^ 3 / (1 - u)" unfolding u_def unit_roundoff_def by (simp add: power3_eq_cube)
  have k2: "(1 - u) ^ 3 / (1 + u) \<le> 1" "0 \<le> (1 - u) ^ 3 / (1 + u)" unfolding u_def unit_roundoff_def by (simp_all add: power3_eq_cube)
  have "P - x * 100 \<le> x * (100 * ((1 + u) ^ 3 / (1 - u)) - 100)"
    using hi by (simp add: algebra_simps)
  also have "\<dots> \<le> 1 * (100 * ((1 + u) ^ 3 / (1 - u)) - 100)"
    using x k1 by (intro mult_right_mono) simp_all
  finally have up: "P - x * 100 \<le> 1 / 10 ^ 12"
    using k_hi by simp
  have "x * (100 - 100 * ((1 - u) ^ 3 / (1 + u))) \<le> 1 * (100 - 100 * ((1 - u) ^ 3 / (1 + u)))"
    using x k2 by (intro mult_right_mono) simp_all
  moreover have "x * 100 - P \<le> x * (100 - 100 * ((1 - u) ^ 3 / (1 + u)))"
    using lo by (simp add: algebra_simps)
  ultimately have down: "x * 100 - P \<le> 1 / 10 ^ 12"
    using k_lo by simp
  from down have "- (P - x * 100) \<le> 1 / 10 ^ 12"
    by linarith
  with up have "\<bar>P - x * 100\<bar> \<le> 1 / 10 ^ 12"
    by (rule abs_leI)
  then show ?thesis
    unfolding P_def Q_def C_def T_def x_def .
qed

lemma percentage_error:
  assumes "0 < t" and "c \<le> t"
  shows "\<bar>binary64 (round2 (binary64
            (binary64 (binary64 (of_nat c) / binary64 (of_nat t)) * 100)))
          - of_nat c / of_nat t * 100\<bar> \<le> 1 / 200 + 1 / 10 ^ 11"
proof -
  define x :: rat where "x = of_nat c / of_nat t * 100"
  define P where "P = binary64 (binary64 (binary64 (of_nat c) / binary64 (of_nat t)) * 100)"
  define R where "R = round2 P"
  have "(of_nat c :: rat) / of_nat t \<le> 1"
    using assms by simp
  then have "of_nat c / of_nat t * 100 \<le> (1 :: rat) * 100"
    by (rule mult_right_mono) simp
  then have x: "0 \<le> x" "x \<le> 100"
    unfolding x_def by simp_all
  have e1: "\<bar>P - x\<bar> \<le> 1 / 1000000000000"
    using share_error [OF assms] unfolding P_def x_def by simp
  have e2: "\<bar>R - P\<bar> \<le> 1 / 200"
    unfolding R_def by (rule round2_error)
  have R: "\<bar>R\<bar> \<le> 101"
    using x e1 e2 by linarith
  have "\<bar>binary64 R - R\<bar> \<le> \<bar>R\<bar> / 2 ^ 53"
    by (rule binary64_error)
  also have "\<dots> \<le> 101 / 2 ^ 53"
    using R by (rule divide_right_mono) simp
  also have "\<dots> \<le> 1 / 1000000000000"
    by simp
  finally have e3: "\<bar>binary64 R - R\<bar> \<le> 1 / 1000000000000" .
  from e1 e2 e3 have "\<bar>binary64 R - x\<bar> \<le> 1 / 200 + 1 / 100000000000"
    by linarith
  also have "1 / 200 + 1 / 100000000000 = (1 / 200 + 1 / 10 ^ 11 :: rat)"
    by simp
  finally show ?thesis
    unfolding R_def P_def x_def .
qed

subsection \<open>The report of a breakdown\<close>

lemma label_counts_le: "(k, c) \<in> set (label_counts col dflt m) \<Longrightarrow> c \<le> length m"
  unfolding label_counts_def group_by_count_def by auto

lemma breakdown_query_report:
  "sum_list (map (\<lambda>(k, c, p). c) (breakdown_query col dflt m)) = length m
   \<and> list_all (\<lambda>(k, c, p). p = Some (binary64 (round2 (binary64
          (binary64 (binary64 (of_nat c) / binary64 (of_nat (length m))) * 100)))))
        (breakdown_query col dflt m)
   \<and> list_all (\<lambda>(k, c, p). \<exists>v. p = Some v
          \<and> \<bar>v - of_nat c / of_nat (length m) * 100\<bar> \<le> 1 / 200 + 1 / 10 ^ 11)
        (breakdown_query col dflt m)
   \<and> (m \<noteq> [] \<longrightarrow>
        (\<exists>ps. map (\<lambda>(k, c, p). p) (breakdown_query col dflt m) = map Some ps
            \<and> \<bar>sum_list ps - 100\<bar>
                \<le> of_nat (length (breakdown_query col dflt m)) * (1 / 200 + 1 / 10 ^ 11)))
   \<and> sorted_wrt (\<lambda>(k, c, p) (k', c', p'). c' \<le> c) (breakdown_query col dflt m)
   \<and> (m = [] \<longrightarrow> breakdown_query col dflt m = [])"
proof -
  let ?counts = "label_counts col dflt m"
  let ?t = "sql_sum (map snd ?counts)"
  let ?o = "order_by_count_desc ?counts"
  let ?pc = "\<lambda>c. binary64 (round2 (binary64
               (binary64 (binary64 (of_nat c) / binary64 (of_nat (length m))) * 100)))"
  let ?share = "\<lambda>c. (of_nat c / of_nat (length m) * 100 :: rat)"
  have rows: "breakdown_query col dflt m = map (\<lambda>(k, c). (k, c, percentage c ?t)) ?o"
    by (rule breakdown_query_rows)
  have total: "sum_list (map snd ?o) = length m"
    unfolding order_by_count_desc_def sum_list_sort_key snd_label_counts
    by (rule sum_group_by_count)
  have p1: "sum_list (map (\<lambda>(k, c, p). c) (breakdown_query col dflt m)) = length m"
    unfolding rows using total by (simp add: comp_def case_prod_beta)
  have pct: "percentage c ?t = Some (?pc c)" if "m \<noteq> []" for c
    using that by (simp add: total_count_value percentage_def)
  have empty: "breakdown_query col dflt m = []" if "m = []"
    unfolding rows order_by_count_desc_def using that label_counts_empty [of col dflt m]
    by simp
  have rows': "breakdown_query col dflt m = map (\<lambda>(k, c). (k, c, Some (?pc c))) ?o"
  proof (cases "m = []")
    case True
    then show ?thesis
      using empty label_counts_empty [of col dflt m] by (simp add: order_by_count_desc_def)
  next
    case False
    then show ?thesis unfolding rows by (simp add: pct)
  qed
  have near: "\<bar>?pc (snd x) - ?share (snd x)\<bar> \<le> 1 / 200 + 1 / 10 ^ 11" if "x \<in> set ?o" for x
  proof -
    have mem: "(fst x, snd x) \<in> set ?counts"
      using that by (simp add: order_by_count_desc_def)
    then have "snd x \<le> length m"
      by (rule label_counts_le)
    moreover have "0 < length m"
      using mem label_counts_empty [of col dflt m] by (cases m) auto
    ultimately show ?thesis
      by (intro percentage_error)
  qed
  have p2: "list_all (\<lambda>(k, c, p). p = Some (?pc c)) (breakdown_query col dflt m)"
    unfolding rows' by (simp add: list_all_iff case_prod_beta)
  have p2': "list_all (\<lambda>(k, c, p). \<exists>v. p = Some v \<and> \<bar>v - ?share c\<bar> \<le> 1 / 200 + 1 / 10 ^ 11)
               (breakdown_query col dflt m)"
    unfolding rows' list_all_iff using near by (auto simp only: set_map split_def fst_conv snd_conv)
  have p3: "\<exists>ps. map (\<lambda>(k, c, p). p) (breakdown_query col dflt m) = map Some ps
              \<and> \<bar>sum_list ps - 100\<bar>
                  \<le> of_nat (length (breakdown_query col dflt m)) * (1 / 200 + 1 / 10 ^ 11)"
    if ne: "m \<noteq> []"
  proof (intro exI conjI)
    show "map (\<lambda>(k, c, p). p) (breakdown_query col dflt m)
            = map Some (map (\<lambda>x. ?pc (snd x)) ?o)"
      unfolding rows' by (simp add: comp_def case_prod_beta)
    have exact: "sum_list (map (\<lambda>x. ?share (snd x)) ?o) = (100 :: rat)"
      using sum_list_share [of snd "of_nat (length m)" ?o] total ne
      by simp
    have "\<bar>sum_list (map (\<lambda>x. ?pc (snd x)) ?o) - sum_list (map (\<lambda>x. ?share (snd x)) ?o)\<bar>
            \<le> of_nat (length ?o) * (1 / 200 + 1 / 10 ^ 11)"
      by (rule sum_list_error) (rule near)
    moreover have "length (breakdown_query col dflt m) = length ?o"
      unfolding rows' by simp
    ultimately show "\<bar>sum_list (map (\<lambda>x. ?pc (snd x)) ?o) - 100\<bar>
                 \<le> of_nat (length (breakdown_query col dflt m)) * (1 / 200 + 1 / 10 ^ 11)"
      unfolding exact by (simp only:)
  qed
  have p4: "sorted_wrt (\<lambda>(k, c, p) (k', c', p'). c' \<le> c) (breakdown_query col dflt m)"
    unfolding rows' using order_by_count_desc_sorted [of ?counts]
    by (simp add: sorted_wrt_map case_prod_beta)
  from p1 p2 p2' p3 p4 empty show ?thesis by blast
qed

text \<open>
  Claim C4, as the code computes it. Let \<open>q\<close> be one of the three breakdowns, called on an
  open store. The counts of the rows it returns add up to the number of matching events.
  The percentage of every row is the count divided by that number and multiplied by 100 in
  doubles, then rounded to two decimals as \<^verbatim>\<open>ROUND\<close> does; it is never \<^verbatim>\<open>NULL\<close>, and it
  differs from the exact share, the count divided by the number of matching events times
  100, by at most half a hundredth and \<open>1 / 10 ^ 11\<close>. When an event matches, the sum of
  the percentages differs from 100 by at most that much per row. The rows are in
  descending order of count; and when no event matches, the result is the empty list,
  returned and not an error.
\<close>

theorem breakdown_counts_and_percentages:
  assumes "db this = Some Open"
    and "q = getReferrerBreakdown \<or> q = getPathsBreakdown \<or> q = getCountryBreakdown"
  shows "\<exists>report. q this site startTime endTime = Inr report
           \<and> sum_list (map (\<lambda>(k, c, p). c) report)
               = length (matching this site startTime endTime)
           \<and> list_all (\<lambda>(k, c, p). p = Some (binary64 (round2 (binary64
                  (binary64 (binary64 (of_nat c)
                     / binary64 (of_nat (length (matching this site startTime endTime))))
                   * 100)))))
                report
           \<and> list_all (\<lambda>(k, c, p). \<exists>v. p = Some v
                  \<and> \<bar>v - of_nat c / of_nat (length (matching this site startTime endTime)) * 100\<bar>
                      \<le> 1 / 200 + 1 / 10 ^ 11)
                report
           \<and> (matching this site startTime endTime \<noteq> [] \<longrightarrow>
                (\<exists>ps. map (\<lambda>(k, c, p). p) report = map Some ps
                    \<and> \<bar>sum_list ps - 100\<bar> \<le> of_nat (length report) * (1 / 200 + 1 / 10 ^ 11)))
           \<and> sorted_wrt (\<lambda>(k, c, p) (k', c', p'). c' \<le> c) report
           \<and> (matching this site startTime endTime = [] \<longrightarrow> report = [])"
proof -
  obtain col dflt where
    q: "q this site startTime endTime =
          Inr (breakdown_query col dflt (matching this site startTime endTime))"
    using assms
    by (auto simp: getReferrerBreakdown_def getPathsBreakdown_def getCountryBreakdown_def
        matching_def)
  show ?thesis
    unfolding q
    using breakdown_query_report [of col dflt "matching this site startTime endTime"]
    by blast
qed

theorem breakdown_counts_and_percentages_witness:
  "db (open_store [event 1 ''a'' 5, (event 2 ''a'' 6)\<lparr>referrer := Some ''g''\<rparr>,
                   (event 3 ''a'' 7)\<lparr>referrer := Some ''g''\<rparr>]) = Some Open
   \<and> matching (open_store [event 1 ''a'' 5, (event 2 ''a'' 6)\<lparr>referrer := Some ''g''\<rparr>,
                           (event 3 ''a'' 7)\<lparr>referrer := Some ''g''\<rparr>]) ''a'' 0 10 \<noteq> []
   \<and> getReferrerBreakdown
        (open_store [event 1 ''a'' 5, (event 2 ''a'' 6)\<lparr>referrer := Some ''g''\<rparr>,
                     (event 3 ''a'' 7)\<lparr>referrer := Some ''g''\<rparr>]) ''a'' 0 10
       = Inr [(''g'', 2, Some (binary64 (6667 / 100))),
              (''(direct)'', 1, Some (binary64 (3333 / 100)))]
   \<and> (\<exists>report.
         getReferrerBreakdown
           (open_store [event 1 ''a'' 5, (event 2 ''a'' 6)\<lparr>referrer := Some ''g''\<rparr>,
                        (event 3 ''a'' 7)\<lparr>referrer := Some ''g''\<rparr>]) ''a'' 0 10 = Inr report
         \<and> sum_list (map (\<lambda>(k, c, p). c) report) = 3
         \<and> (\<exists>ps. map (\<lambda>(k, c, p). p) report = map Some ps
               \<and> \<bar>sum_list ps - 100\<bar> \<le> of_nat (length report) * (1 / 200 + 1 / 10 ^ 11)))
   \<and> matching (open_store [event 1 ''a'' 5, (event 2 ''a'' 6)\<lparr>referrer := Some ''g''\<rparr>,
                           (event 3 ''a'' 7)\<lparr>referrer := Some ''g''\<rparr>]) ''b'' 0 10 = []
   \<and> getCountryBreakdown
        (open_store [event 1 ''a'' 5, (event 2 ''a'' 6)\<lparr>referrer := Some ''g''\<rparr>,
                     (event 3 ''a'' 7)\<lparr>referrer := Some ''g''\<rparr>]) ''b'' 0 10 = Inr []"
proof -
  let ?s = "open_store [event 1 ''a'' 5, (event 2 ''a'' 6)\<lparr>referrer := Some ''g''\<rparr>,
                        (event 3 ''a'' 7)\<lparr>referrer := Some ''g''\<rparr>]"
  have op: "db ?s = Some Open"
    by (simp add: open_store_def)
  have len: "length (matching ?s ''a'' 0 10) = 3"
    by code_simp
  then have ne: "matching ?s ''a'' 0 10 \<noteq> []"
    by auto
  have v: "getReferrerBreakdown ?s ''a'' 0 10
             = Inr [(''g'', 2, Some (binary64 (6667 / 100))),
                    (''(direct)'', 1, Some (binary64 (3333 / 100)))]"
    by code_simp
  from breakdown_counts_and_percentages [OF op, of getReferrerBreakdown "''a''" 0 10]
  obtain report where "getReferrerBreakdown ?s ''a'' 0 10 = Inr report"
    "sum_list (map (\<lambda>(k, c, p). c) report) = 3"
    "\<exists>ps. map (\<lambda>(k, c, p). p) report = map Some ps
         \<and> \<bar>sum_list ps - 100\<bar> \<le> of_nat (length report) * (1 / 200 + 1 / 10 ^ 11)"
    using ne len by auto
  moreover have none: "matching ?s ''b'' 0 10 = []"
    by code_simp
  moreover have "getCountryBreakdown ?s ''b'' 0 10 = Inr []"
    using breakdown_counts_and_percentages [OF op, of getCountryBreakdown "''b''" 0 10] none
    by auto
  ultimately show ?thesis
    using op ne v by blast
qed

text \<open>
  The percentage is not always the exact share rounded to two decimals. Of 160 matching
  events, 23 have the referrer \<^verbatim>\<open>g\<close>: their share is 14.375 exactly, which rounds to 14.38.
  The product computed in doubles is 14.374999999999998, rounded by \<^verbatim>\<open>ROUND\<close> to 14.37,
  and the row of \<open>getReferrerBreakdown\<close> carries the double nearest to 14.37. Likewise
  the share of the other 137 events is 85.625 and their row carries 85.63 only because
  the double product there is 85.625 itself.
\<close>

theorem breakdown_percentage_not_exact_counterexample:
  "length (matching
             (open_store (map (\<lambda>i. (event i ''a'' 5)\<lparr>referrer := if i \<le> 23 then Some ''g'' else None\<rparr>)
                            [1..160])) ''a'' 0 10) = 160
   \<and> getReferrerBreakdown
        (open_store (map (\<lambda>i. (event i ''a'' 5)\<lparr>referrer := if i \<le> 23 then Some ''g'' else None\<rparr>)
                       [1..160])) ''a'' 0 10
       = Inr [(''(direct)'', 137, Some (binary64 (8563 / 100))),
              (''g'', 23, Some (binary64 (1437 / 100)))]
   \<and> of_nat 23 / of_nat 160 * 100 = (14375 / 1000 :: rat)
   \<and> round2 (of_nat 23 / of_nat 160 * 100) = 1438 / 100
   \<and> binary64 (binary64 (binary64 (of_nat 23) / binary64 (of_nat 160)) * 100)
       = 8092405580431359 / 562949953421312
   \<and> binary64 (1437 / 100) < 1438 / 100 - 1 / 200
   \<and> binary64 (1437 / 100) \<noteq> binary64 (1438 / 100)"
  by code_simp

section \<open>Absent fields in the breakdowns\<close>

lemma label_counts_member:
  assumes "k \<in> col ` set m"
  shows "(coalesce k dflt, length (filter (\<lambda>x. col x = k) m)) \<in> set (label_counts col dflt m)"
proof -
  have "(k, length (filter (\<lambda>x. col x = k) m)) \<in> set (group_by_count col m)"
    using assms unfolding group_by_count_def by (auto simp: image_iff)
  then show ?thesis
    unfolding label_counts_def by force
qed

lemma label_counts_rows:
  "list_all (\<lambda>(k, c). \<exists>g\<in>col ` set m. k = coalesce g dflt
                                      \<and> c = length (filter (\<lambda>x. col x = g) m))
     (label_counts col dflt m)"
  unfolding label_counts_def group_by_count_def list_all_iff by auto

lemma breakdown_query_member:
  assumes "k \<in> col ` set m"
  shows "\<exists>p. (coalesce k dflt, length (filter (\<lambda>x. col x = k) m), p)
               \<in> set (breakdown_query col dflt m)"
proof -
  have "(coalesce k dflt, length (filter (\<lambda>x. col x = k) m))
          \<in> set (order_by_count_desc (label_counts col dflt m))"
    unfolding order_by_count_desc_def using label_counts_member [OF assms] by simp
  then show ?thesis
    unfolding breakdown_query_rows by force
qed

lemma length_label_counts: "length (label_counts col dflt m) = card (col ` set m)"
  by (simp add: label_counts_def group_by_count_def length_remdups_card_conv)

lemma top_ten_all:
  assumes "card (col ` set m) \<le> 10"
  shows "take 10 (order_by_count_desc (label_counts col dflt m))
           = order_by_count_desc (label_counts col dflt m)"
  using assms length_label_counts [of col dflt m]
  by (simp add: order_by_count_desc_def)

lemma top_ten_rows:
  "list_all (\<lambda>(k, c). \<exists>g\<in>col ` set m. k = coalesce g dflt
                                      \<and> c = length (filter (\<lambda>x. col x = g) m))
     (take 10 (order_by_count_desc (label_counts col dflt m)))"
proof -
  have "set (take 10 (order_by_count_desc (label_counts col dflt m)))
          \<subseteq> set (label_counts col dflt m)"
    by (auto simp: order_by_count_desc_def dest: in_set_takeD)
  then show ?thesis
    using label_counts_rows [of col m dflt] unfolding list_all_iff by blast
qed

text \<open>
  Claim C6. Let \<open>r\<close> be a matching event on an open store. If its referrer is absent,
  \<open>getReferrerBreakdown\<close> has a row with the key \<^verbatim>\<open>(direct)\<close> that counts the matching
  events without referrer; likewise \<^verbatim>\<open>(no path)\<close> in \<open>getPathsBreakdown\<close> for an absent
  path and \<^verbatim>\<open>(unknown)\<close> in \<open>getCountryBreakdown\<close> for an absent country. In
  \<open>top_referrers\<close> of \<open>getTrafficStats\<close> every row is a referrer of a matching event,
  an absent one relabelled \<^verbatim>\<open>(direct)\<close>, with the number of matching events that have
  it; and the row \<^verbatim>\<open>(direct)\<close> of the events without referrer is among them whenever the
  matching events have at most ten distinct referrers, so that \<^verbatim>\<open>LIMIT 10\<close> cuts nothing.
\<close>

theorem null_fields_coalesced:
  assumes "db this = Some Open" and "r \<in> set (matching this site startTime endTime)"
  shows "(referrer r = None \<longrightarrow>
            (\<exists>report p. getReferrerBreakdown this site startTime endTime = Inr report
               \<and> (''(direct)'',
                   length (filter (\<lambda>x. referrer x = None) (matching this site startTime endTime)),
                   p) \<in> set report))
         \<and> (path r = None \<longrightarrow>
            (\<exists>report p. getPathsBreakdown this site startTime endTime = Inr report
               \<and> (''(no path)'',
                   length (filter (\<lambda>x. path x = None) (matching this site startTime endTime)),
                   p) \<in> set report))
         \<and> (country r = None \<longrightarrow>
            (\<exists>report p. getCountryBreakdown this site startTime endTime = Inr report
               \<and> (''(unknown)'',
                   length (filter (\<lambda>x. country x = None) (matching this site startTime endTime)),
                   p) \<in> set report))
         \<and> (\<exists>st. getTrafficStats this site startTime endTime = Inr st
               \<and> list_all (\<lambda>(k, c). \<exists>g\<in>referrer ` set (matching this site startTime endTime).
                                        k = coalesce g ''(direct)''
                                        \<and> c = length (filter (\<lambda>x. referrer x = g)
                                                         (matching this site startTime endTime)))
                    (top_referrers st)
               \<and> (referrer r = None
                    \<and> card (referrer ` set (matching this site startTime endTime)) \<le> 10
                  \<longrightarrow> (''(direct)'',
                        length (filter (\<lambda>x. referrer x = None)
                                  (matching this site startTime endTime)))
                       \<in> set (top_referrers st)))"
proof -
  let ?m = "matching this site startTime endTime"
  have mem: "None \<in> col ` set ?m" if "col r = None" for col :: "TrafficDBRecord \<Rightarrow> string option"
    using assms(2) that by (metis image_eqI)
  have ra: "getReferrerBreakdown this site startTime endTime
              = Inr (breakdown_query referrer ''(direct)'' ?m)"
    and rb: "getPathsBreakdown this site startTime endTime
              = Inr (breakdown_query path ''(no path)'' ?m)"
    and rc: "getCountryBreakdown this site startTime endTime
              = Inr (breakdown_query country ''(unknown)'' ?m)"
    using assms(1)
    by (simp_all add: getReferrerBreakdown_def getPathsBreakdown_def getCountryBreakdown_def
        matching_def)
  have co: "coalesce None dflt = dflt" for dflt :: string
    by (simp add: coalesce_def)
  have a: "\<exists>report p. getReferrerBreakdown this site startTime endTime = Inr report
             \<and> (''(direct)'', length (filter (\<lambda>x. referrer x = None) ?m), p) \<in> set report"
    if "referrer r = None"
    unfolding ra using breakdown_query_member [OF mem [of referrer, OF that], of "''(direct)''"]
    unfolding co by blast
  have b: "\<exists>report p. getPathsBreakdown this site startTime endTime = Inr report
             \<and> (''(no path)'', length (filter (\<lambda>x. path x = None) ?m), p) \<in> set report"
    if "path r = None"
    unfolding rb using breakdown_query_member [OF mem [of path, OF that], of "''(no path)''"]
    unfolding co by blast
  have c: "\<exists>report p. getCountryBreakdown this site startTime endTime = Inr report
             \<and> (''(unknown)'', length (filter (\<lambda>x. country x = None) ?m), p) \<in> set report"
    if "country r = None"
    unfolding rc using breakdown_query_member [OF mem [of country, OF that], of "''(unknown)''"]
    unfolding co by blast
  obtain st where st: "getTrafficStats this site startTime endTime = Inr st"
    and top: "top_referrers st
                = take 10 (order_by_count_desc (label_counts referrer ''(direct)'' ?m))"
    using assms(1) by (simp add: getTrafficStats_def Let_def matching_def)
  have d: "list_all (\<lambda>(k, c). \<exists>g\<in>referrer ` set ?m. k = coalesce g ''(direct)''
                                \<and> c = length (filter (\<lambda>x. referrer x = g) ?m))
             (top_referrers st)"
    unfolding top by (rule top_ten_rows)
  have e: "(''(direct)'', length (filter (\<lambda>x. referrer x = None) ?m)) \<in> set (top_referrers st)"
    if "referrer r = None" and "card (referrer ` set ?m) \<le> 10"
    using label_counts_member [OF mem [of referrer, OF that(1)], of "''(direct)''"]
    unfolding top top_ten_all [OF that(2)] co
    by (simp add: order_by_count_desc_def)
  have f: "\<exists>st. getTrafficStats this site startTime endTime = Inr st
             \<and> list_all (\<lambda>(k, c). \<exists>g\<in>referrer ` set ?m. k = coalesce g ''(direct)''
                                \<and> c = length (filter (\<lambda>x. referrer x = g) ?m))
                  (top_referrers st)
             \<and> (referrer r = None \<and> card (referrer ` set ?m) \<le> 10
                \<longrightarrow> (''(direct)'', length (filter (\<lambda>x. referrer x = None) ?m))
                       \<in> set (top_referrers st))"
    using st d e by (intro exI [of _ st]) simp
  show ?thesis
    using a b c f by (intro conjI impI) assumption+
qed

theorem null_fields_coalesced_witness:
  "db (open_store [event 1 ''a'' 5]) = Some Open
   \<and> event 1 ''a'' 5 \<in> set (matching (open_store [event 1 ''a'' 5]) ''a'' 0 10)
   \<and> referrer (event 1 ''a'' 5) = None
   \<and> path (event 1 ''a'' 5) = None
   \<and> country (event 1 ''a'' 5) = None
   \<and> card (referrer ` set (matching (open_store [event 1 ''a'' 5]) ''a'' 0 10)) \<le> 10
   \<and> getReferrerBreakdown (open_store [event 1 ''a'' 5]) ''a'' 0 10
       = Inr [(''(direct)'', 1, Some 100)]
   \<and> getPathsBreakdown (open_store [event 1 ''a'' 5]) ''a'' 0 10
       = Inr [(''(no path)'', 1, Some 100)]
   \<and> getCountryBreakdown (open_store [event 1 ''a'' 5]) ''a'' 0 10
       = Inr [(''(unknown)'', 1, Some 100)]
   \<and> (\<exists>st. getTrafficStats (open_store [event 1 ''a'' 5]) ''a'' 0 10 = Inr st
          \<and> (''(direct)'', 1) \<in> set (top_referrers st))"
proof -
  let ?s = "open_store [event 1 ''a'' 5]"
  have op: "db ?s = Some Open"
    by (simp add: open_store_def)
  have m: "matching ?s ''a'' 0 10 = [event 1 ''a'' 5]"
    by (simp add: matching_def open_store_def event_def where_site_time_def)
  have mem: "event 1 ''a'' 5 \<in> set (matching ?s ''a'' 0 10)"
    unfolding m by simp
  have nulls: "referrer (event 1 ''a'' 5) = None" "path (event 1 ''a'' 5) = None"
    "country (event 1 ''a'' 5) = None"
    by (simp_all add: event_def)
  have few: "card (referrer ` set (matching ?s ''a'' 0 10)) \<le> 10"
    unfolding m by simp
  have v: "getReferrerBreakdown ?s ''a'' 0 10 = Inr [(''(direct)'', 1, Some 100)]"
    "getPathsBreakdown ?s ''a'' 0 10 = Inr [(''(no path)'', 1, Some 100)]"
    "getCountryBreakdown ?s ''a'' 0 10 = Inr [(''(unknown)'', 1, Some 100)]"
    by code_simp+
  from null_fields_coalesced [OF op mem]
  obtain st where "getTrafficStats ?s ''a'' 0 10 = Inr st"
    "referrer (event 1 ''a'' 5) = None \<and> card (referrer ` set (matching ?s ''a'' 0 10)) \<le> 10
       \<longrightarrow> (''(direct)'', length (filter (\<lambda>x. referrer x = None) (matching ?s ''a'' 0 10)))
             \<in> set (top_referrers st)"
    by blast
  then have "\<exists>st. getTrafficStats ?s ''a'' 0 10 = Inr st
               \<and> (''(direct)'', 1) \<in> set (top_referrers st)"
    using nulls(1) few unfolding m by auto
  with op mem nulls few v show ?thesis
    by blast
qed

end
